theory Spec2Isabelle
  imports Main "HOL-Library.AList" "HOL-Library.Char_ord" "HOL-Library.List_Lexorder"
    "HOL-Library.Multiset"
begin

section \<open>The script engine of \<open>jira issue script\<close>\<close>

text \<open>
  The engine lives in package \<open>script\<close> (second half of
  \<open>src/internal/cmd/issue/tclog/tclog.go\<close>). Go strings are byte sequences, so a string
  is a \<open>char list\<close> and every index below counts bytes.
\<close>

subsection \<open>Data model\<close>

text \<open>
  A decoded script value has dynamic type \<open>any\<close>. The engine tells apart three shapes
  by type switch and type assertion: \<open>string\<close>, \<open>[]any\<close> and \<open>map[string]any\<close>.
  Every other dynamic value (integer, boolean, nil, float, ...) is only ever observed
  through its type name (\<open>%T\<close>) and its default rendering (\<open>%v\<close>), so \<open>VOther\<close>
  carries exactly these two strings.

  A Go map is an association list with distinct keys; the order of the list stands
  for the order in which \<open>range\<close> yields the entries. Go fixes no such order, so
  a statement below that holds for every list holds for every order that a run may
  meet.

  The field \<open>Define\<close> of a script is \<open>None\<close> for the nil map, which the decoder leaves
  when the document has no \<open>define\<close> section, and \<open>Some m\<close> for a map with the entries
  \<open>m\<close>. Reading a nil map is reading an empty one (\<open>contents\<close>); assigning to an
  entry of a nil map panics.
\<close>

datatype val =
    VString string
  | VSlice "val list"
  | VMap "(string \<times> val) list"
  | VOther string string

type_synonym defmap = "(string \<times> string) list"

type_synonym action = "(string \<times> val) list"

record Script =
  Define :: "defmap option"
  Actions :: "action list"

definition contents :: "defmap option \<Rightarrow> defmap" where
  "contents define = (case define of None \<Rightarrow> [] | Some m \<Rightarrow> m)"

text \<open>
  Errors are values. The first seven are the \<open>fmt.Errorf\<close> results of the engine, in
  the order of their appearance in the source; \<open>External\<close> is an error handed back by
  a collaborator (user lookup, command tree, command execution, JSON encoder);
  \<open>PanicIndexOutOfRange\<close> is the run-time panic of an index expression,
  \<open>PanicInterfaceConversion\<close> that of a type assertion and \<open>PanicAssignNilMap\<close> that
  of an assignment to an entry of a nil map.
\<close>

datatype error =
    UnknownVariable string
  | UnexpectedType string
  | UnknownBuiltin string
  | MissingArgument int string
  | NoActionProperty
  | InvalidActionProperty val
  | CustomNotMap
  | External string
  | PanicIndexOutOfRange
  | PanicInterfaceConversion
  | PanicAssignNilMap

subsection \<open>The variable pattern\<close>

text \<open>
  \<open>varRe\<close> is the regular expression \<open>\$\w+\<close>. In Go's syntax \<open>\w\<close> is the ASCII
  class \<open>[0-9A-Za-z_]\<close>.
\<close>

definition is_word :: "char \<Rightarrow> bool" where
  "is_word c \<longleftrightarrow>
     (CHR ''0'' \<le> c \<and> c \<le> CHR ''9'') \<or> (CHR ''A'' \<le> c \<and> c \<le> CHR ''Z'') \<or>
     (CHR ''a'' \<le> c \<and> c \<le> CHR ''z'') \<or> c = CHR ''_''"

text \<open>
  \<open>find_from i cs\<close> lists the matches of \<open>varRe\<close> in the suffix \<open>cs\<close> that starts at
  byte \<open>i\<close> of the subject, as pairs (start, end) with the end exclusive: leftmost
  match first, each match greedy, the search resuming at the end of the match.
\<close>

function find_from :: "nat \<Rightarrow> string \<Rightarrow> (nat \<times> nat) list" where
  "find_from i [] = []"
| "find_from i (c # cs) =
     (if c = CHR ''$'' \<and> takeWhile is_word cs \<noteq> []
      then (i, i + 1 + length (takeWhile is_word cs)) #
           find_from (i + 1 + length (takeWhile is_word cs)) (dropWhile is_word cs)
      else find_from (i + 1) cs)"
  by pat_completeness auto
termination
  by (relation "measure (\<lambda>(i, cs). length cs)")
     (auto simp: length_dropWhile_le less_Suc_eq_le)

definition FindAllStringIndex :: "string \<Rightarrow> (nat \<times> nat) list" where
  "FindAllStringIndex obj = find_from 0 obj"

text \<open>The slice expression \<open>s[lo:hi]\<close>, used only with \<open>lo \<le> hi \<le> len(s)\<close>.\<close>

definition slice :: "'a list \<Rightarrow> nat \<Rightarrow> nat \<Rightarrow> 'a list" where
  "slice s lo hi = take (hi - lo) (drop lo s)"

subsection \<open>interpolateVars\<close>

text \<open>The loop over the matches in the \<open>string\<close> case, with its two loop variables.\<close>

fun interpolate_matches ::
  "string \<Rightarrow> defmap \<Rightarrow> (nat \<times> nat) list \<Rightarrow> string \<Rightarrow> nat \<Rightarrow> error + string" where
  "interpolate_matches obj define [] newString lastIdx =
     Inr (newString @ drop lastIdx obj)"
| "interpolate_matches obj define (match # matches) newString lastIdx =
     (let newString1 = newString @ slice obj lastIdx (fst match);
          varName = slice obj (fst match + 1) (snd match)
      in case map_of define varName of
           None \<Rightarrow> Inl (UnknownVariable varName)
         | Some v \<Rightarrow> interpolate_matches obj define matches (newString1 @ v) (snd match))"

fun interpolateVars :: "val \<Rightarrow> defmap \<Rightarrow> error + val"
  and interpolate_slice :: "val list \<Rightarrow> defmap \<Rightarrow> error + val list"
  and interpolate_map :: "(string \<times> val) list \<Rightarrow> defmap \<Rightarrow> error + (string \<times> val) list"
where
  "interpolateVars (VString obj) define =
     (case interpolate_matches obj define (FindAllStringIndex obj) [] 0 of
        Inl err \<Rightarrow> Inl err
      | Inr newString \<Rightarrow> Inr (VString newString))"
| "interpolateVars (VSlice obj) define =
     (case interpolate_slice obj define of
        Inl err \<Rightarrow> Inl err
      | Inr newSlice \<Rightarrow> Inr (VSlice newSlice))"
| "interpolateVars (VMap obj) define =
     (case interpolate_map obj define of
        Inl err \<Rightarrow> Inl err
      | Inr newMap \<Rightarrow> Inr (VMap newMap))"
| "interpolateVars (VOther ty repr) define = Inl (UnexpectedType ty)"
| "interpolate_slice [] define = Inr []"
| "interpolate_slice (v # rest) define =
     (case interpolateVars v define of
        Inl err \<Rightarrow> Inl err
      | Inr newVal \<Rightarrow>
          (case interpolate_slice rest define of
             Inl err \<Rightarrow> Inl err
           | Inr newRest \<Rightarrow> Inr (newVal # newRest)))"
| "interpolate_map [] define = Inr []"
| "interpolate_map (kv # rest) define =
     (case interpolateVars (snd kv) define of
        Inl err \<Rightarrow> Inl err
      | Inr newVal \<Rightarrow>
          (case interpolate_map rest define of
             Inl err \<Rightarrow> Inl err
           | Inr newRest \<Rightarrow> Inr ((fst kv, newVal) # newRest)))"

subsection \<open>Library functions used by the resolver\<close>

text \<open>
  \<open>strconv.Atoi\<close> on a 64-bit platform: an optional sign, then one or more decimal
  digits and nothing else, the value within the range of \<open>int\<close>. Anything else
  (the empty string, a stray character, a value out of range) is an error, here \<open>None\<close>.
\<close>

definition is_digit :: "char \<Rightarrow> bool" where
  "is_digit c \<longleftrightarrow> CHR ''0'' \<le> c \<and> c \<le> CHR ''9''"

fun parse_digits :: "string \<Rightarrow> int \<Rightarrow> int option" where
  "parse_digits [] n = Some n"
| "parse_digits (ch # s) n =
     (if is_digit ch then parse_digits s (n * 10 + (of_char ch - 48)) else None)"

definition Atoi :: "string \<Rightarrow> int option" where
  "Atoi s =
     (let signed = (s \<noteq> [] \<and> (hd s = CHR ''-'' \<or> hd s = CHR ''+''));
          digits = (if signed then tl s else s)
      in if digits = [] then None
         else case parse_digits digits 0 of
                None \<Rightarrow> None
              | Some n \<Rightarrow>
                  (let ival = (if hd s = CHR ''-'' then - n else n)
                   in if - (2 ^ 63) \<le> ival \<and> ival < 2 ^ 63 then Some ival else None))"

text \<open>\<open>cmp.Compare\<close> on strings: bytewise lexicographic order.\<close>

definition Compare :: "string \<Rightarrow> string \<Rightarrow> int" where
  "Compare a b = (if a < b then - 1 else if b < a then 1 else 0)"

text \<open>
  \<open>slices.SortFunc\<close> promises an ascending result and no particular order among
  elements that compare equal. The model is sorting by insertion: each element goes
  before the first one that it is smaller than.
\<close>

fun insert_by :: "('a \<Rightarrow> 'a \<Rightarrow> int) \<Rightarrow> 'a \<Rightarrow> 'a list \<Rightarrow> 'a list" where
  "insert_by cmp x [] = [x]"
| "insert_by cmp x (y # ys) = (if cmp x y < 0 then x # y # ys else y # insert_by cmp x ys)"

definition SortFunc :: "'a list \<Rightarrow> ('a \<Rightarrow> 'a \<Rightarrow> int) \<Rightarrow> 'a list" where
  "SortFunc xs cmp = foldl (\<lambda>sorted x. insert_by cmp x sorted) [] xs"

subsection \<open>The user lookup\<close>

text \<open>
  \<open>cmdcommon.UserLookup\<close> prompts on the console and queries the issue tracker. The
  resolver uses three of its methods; they are parameters here, each taking and
  returning the state \<open>'w\<close> of the outside world.
\<close>

record User =
  AccountID :: string
  Email :: string
  Name :: string
  DisplayName :: string
  Active :: bool

record 'w UserLookup =
  SelectUser :: "string \<Rightarrow> 'w \<Rightarrow> (error + string) \<times> 'w"
  FindMe :: "'w \<Rightarrow> (error + User) \<times> 'w"
  FindUser :: "string \<Rightarrow> 'w \<Rightarrow> (error + User) \<times> 'w"

definition OptionMe :: string where
  "OptionMe = ''Me''"

subsection \<open>Script.SetupArgs\<close>

text \<open>The map index expression \<open>m[key]\<close>: the zero value when the key is absent.\<close>

definition index_map :: "defmap \<Rightarrow> string \<Rightarrow> string" where
  "index_map m key = (case map_of m key of None \<Rightarrow> [] | Some v \<Rightarrow> v)"

text \<open>
  The body of the loop over the sorted keys. \<open>val[0]\<close> panics on the empty string;
  \<open>args[ival - 1]\<close> panics when \<open>ival - 1\<close> is negative (the guard before it
  excludes an index beyond the end).
\<close>

definition SetupArgs_body ::
  "string list \<Rightarrow> 'w UserLookup \<Rightarrow> string \<Rightarrow> defmap \<Rightarrow> 'w \<Rightarrow> (error + defmap) \<times> 'w" where
  "SetupArgs_body args ul key define w =
     (let val = index_map define key in
      case val of
        [] \<Rightarrow> (Inl PanicIndexOutOfRange, w)
      | c # varname \<Rightarrow>
          if c = CHR ''~'' then
            if length varname > 0 \<and> hd varname = CHR ''~'' then
              (Inr (AList.update key (tl varname) define), w)
            else if varname = ''choose_user'' then
              (case SelectUser ul (''Select user for '' @ key @ '':'') w of
                 (Inl err, w1) \<Rightarrow> (Inl err, w1)
               | (Inr choice, w1) \<Rightarrow>
                   if choice = OptionMe then
                     (case FindMe ul w1 of
                        (Inl err, w2) \<Rightarrow> (Inl err, w2)
                      | (Inr user, w2) \<Rightarrow> (Inr (AList.update key (Name user) define), w2))
                   else
                     (case FindUser ul choice w1 of
                        (Inl err, w2) \<Rightarrow> (Inl err, w2)
                      | (Inr user, w2) \<Rightarrow> (Inr (AList.update key (Name user) define), w2)))
            else if varname = ''me'' then
              (case FindMe ul w of
                 (Inl err, w1) \<Rightarrow> (Inl err, w1)
               | (Inr user, w1) \<Rightarrow> (Inr (AList.update key (Name user) define), w1))
            else
              (case Atoi varname of
                 None \<Rightarrow> (Inl (UnknownBuiltin val), w)
               | Some ival \<Rightarrow>
                   if int (length args) < ival then (Inl (MissingArgument ival key), w)
                   else if ival - 1 < 0 then (Inl PanicIndexOutOfRange, w)
                   else (Inr (AList.update key (args ! nat (ival - 1)) define), w))
          else (Inr define, w))"

fun SetupArgs_loop ::
  "string list \<Rightarrow> 'w UserLookup \<Rightarrow> string list \<Rightarrow> defmap \<Rightarrow> 'w \<Rightarrow> (error + defmap) \<times> 'w" where
  "SetupArgs_loop args ul [] define w = (Inr define, w)"
| "SetupArgs_loop args ul (key # keys) define w =
     (case SetupArgs_body args ul key define w of
        (Inl err, w1) \<Rightarrow> (Inl err, w1)
      | (Inr define1, w1) \<Rightarrow> SetupArgs_loop args ul keys define1 w1)"

text \<open>The slice \<open>keys\<close> after the call of \<open>slices.SortFunc\<close>.\<close>

definition SetupArgs_keys :: "defmap \<Rightarrow> string list" where
  "SetupArgs_keys define =
     SortFunc (map fst define) (\<lambda>a b. Compare (index_map define a) (index_map define b))"

text \<open>
  \<open>SetupArgs\<close> on the entries of \<open>s.Define\<close>. It assigns only to keys that it has read
  from the map, so a nil map, which has no entries, is never assigned to.
\<close>

definition SetupArgs ::
  "string list \<Rightarrow> 'w UserLookup \<Rightarrow> defmap \<Rightarrow> 'w \<Rightarrow> (error + defmap) \<times> 'w" where
  "SetupArgs args ul define w = SetupArgs_loop args ul (SetupArgs_keys define) define w"

subsection \<open>Rendering values\<close>

text \<open>\<open>strings.Join\<close>, which is also how \<open>%v\<close> separates the elements of a slice.\<close>

fun Join :: "string list \<Rightarrow> string \<Rightarrow> string" where
  "Join [] sep = []"
| "Join [s] sep = s"
| "Join (s # t # rest) sep = s @ sep @ Join (t # rest) sep"

text \<open>
  \<open>fmt.Sprint\<close> of one operand, the \<open>%v\<close> verb: a string as it is, a slice as
  \<open>[e1 e2]\<close>, a map as \<open>map[k1:v1 k2:v2]\<close> with the keys in ascending order.
\<close>

fun Sprint :: "val \<Rightarrow> string"
  and Sprint_elems :: "val list \<Rightarrow> string list"
  and Sprint_entries :: "(string \<times> val) list \<Rightarrow> (string \<times> string) list"
where
  "Sprint (VString s) = s"
| "Sprint (VSlice elems) = ''['' @ Join (Sprint_elems elems) '' '' @ '']''"
| "Sprint (VMap entries) =
     ''map['' @ Join (map (\<lambda>kv. fst kv @ '':'' @ snd kv) (sort_key fst (Sprint_entries entries))) '' ''
       @ '']''"
| "Sprint (VOther ty repr) = repr"
| "Sprint_elems [] = []"
| "Sprint_elems (v # rest) = Sprint v # Sprint_elems rest"
| "Sprint_entries [] = []"
| "Sprint_entries (kv # rest) = (fst kv, Sprint (snd kv)) # Sprint_entries rest"

subsection \<open>The collaborators of runScript\<close>

text \<open>
  What \<open>runScript\<close> calls outside the package, as parameters:
  \<^item> \<open>ReadScript\<close>: \<open>os.Open\<close> and the YAML decoder;
  \<^item> \<open>GetBool\<close>: \<open>cmd.Flags().GetBool\<close>;
  \<^item> \<open>Find\<close>: \<open>root.Find\<close>, which yields an error or a command; of the command only
    \<open>subCmd.Flags().Lookup("no-input") != nil\<close> is looked at, field \<open>has_no_input\<close>;
  \<^item> \<open>Marshal\<close>: \<open>json.Marshal\<close> on a \<open>map[string]any\<close>;
  \<^item> \<open>Printf\<close>: the line written to standard output;
  \<^item> \<open>ExecuteC\<close>: \<open>root.SetArgs(args)\<close> and \<open>root.ExecuteC()\<close>. It yields the error
    if any, and the issue keys that the executed command handed to the \<open>Consume\<close>
    method of the consumer installed for it, in the order of the calls.
\<close>

record Command =
  has_no_input :: bool

record 'w Env =
  ReadScript :: "string \<Rightarrow> 'w \<Rightarrow> (error + Script) \<times> 'w"
  GetBool :: "string \<Rightarrow> error + bool"
  Find :: "string list \<Rightarrow> error + Command"
  Marshal :: "(string \<times> val) list \<Rightarrow> error + string"
  Printf :: "string \<Rightarrow> 'w \<Rightarrow> 'w"
  ExecuteC :: "string list \<Rightarrow> 'w \<Rightarrow> error option \<times> string list \<times> 'w"

record issueKeyConsumer =
  issueKey :: string

definition Consume :: "issueKeyConsumer \<Rightarrow> string \<Rightarrow> issueKeyConsumer" where
  "Consume consumer key = consumer\<lparr>issueKey := key\<rparr>"

subsection \<open>runScript: from an action to an argument vector\<close>

text \<open>The three inner loops of the \<open>switch\<close>, each appending to \<open>args\<close>.\<close>

fun args_loop :: "val list \<Rightarrow> string list \<Rightarrow> string list" where
  "args_loop [] args = args"
| "args_loop (arg # rest) args = args_loop rest (args @ [Sprint arg])"

fun customs_loop ::
  "'w Env \<Rightarrow> (string \<times> val) list \<Rightarrow> string list \<Rightarrow> error + string list" where
  "customs_loop env [] args = Inr args"
| "customs_loop env (entry # rest) args =
     (case snd entry of
        VMap mapval \<Rightarrow>
          (case Marshal env mapval of
             Inl err \<Rightarrow> Inl err
           | Inr strval \<Rightarrow>
               customs_loop env rest
                 ((args @ [''--custom'']) @ [''json:'' @ fst entry @ ''='' @ strval]))
      | fvalue \<Rightarrow>
          customs_loop env rest
            ((args @ [''--custom'']) @ [fst entry @ ''='' @ Sprint fvalue]))"

fun items_loop :: "string \<Rightarrow> val list \<Rightarrow> string list \<Rightarrow> string list" where
  "items_loop key [] args = args"
| "items_loop key (item # rest) args =
     items_loop key rest ((args @ [''--'' @ key]) @ [Sprint item])"

text \<open>The \<open>switch key\<close> statement: the new \<open>args\<close>, or the error returned.\<close>

definition switch_key ::
  "'w Env \<Rightarrow> string \<Rightarrow> val \<Rightarrow> string list \<Rightarrow> error + string list" where
  "switch_key env key value args =
     (if key = ''action'' then Inr args
      else if key = ''args'' then
        (case value of
           VSlice argslice \<Rightarrow> Inr (args_loop argslice args)
         | _ \<Rightarrow> Inr (args @ [Sprint value]))
      else if key = ''custom'' then
        (case value of
           VMap customs \<Rightarrow> customs_loop env customs args
         | _ \<Rightarrow> Inl CustomNotMap)
      else
        (case value of
           VSlice arrval \<Rightarrow> Inr (items_loop key arrval args)
         | _ \<Rightarrow> Inr ((args @ [''--'' @ key]) @ [Sprint value])))"

text \<open>The loop \<open>for key, value := range action\<close>.\<close>

fun fields_loop ::
  "'w Env \<Rightarrow> (string \<times> val) list \<Rightarrow> string list \<Rightarrow> error + string list" where
  "fields_loop env [] args = Inr args"
| "fields_loop env (field # rest) args =
     (case switch_key env (fst field) (snd field) args of
        Inl err \<Rightarrow> Inl err
      | Inr args1 \<Rightarrow> fields_loop env rest args1)"

subsection \<open>runScript: the loop over the actions\<close>

text \<open>
  One iteration of the loop over \<open>script.Actions\<close>. Its result is the error returned
  from inside the iteration, if any, together with \<open>script.Define\<close> and the world as
  the iteration leaves them. The type assertion on the result of \<open>interpolateVars\<close>
  would panic on anything but a map. The assignment \<open>script.Define["issue_key"] = ...\<close>
  at the end of the iteration panics when \<open>script.Define\<close> is nil.
\<close>

definition runScript_body ::
  "'w Env \<Rightarrow> action \<Rightarrow> defmap option \<Rightarrow> 'w \<Rightarrow> error option \<times> defmap option \<times> 'w" where
  "runScript_body env action define w =
     (case map_of action ''action'' of
        None \<Rightarrow> (Some NoActionProperty, define, w)
      | Some nm \<Rightarrow>
          (case nm of
             VString name \<Rightarrow>
               (case interpolateVars (VMap action) (contents define) of
                  Inl err \<Rightarrow> (Some err, define, w)
                | Inr actionUntyped \<Rightarrow>
                    (case actionUntyped of
                       VMap action1 \<Rightarrow>
                         (case Find env [''issue'', name] of
                            Inl err \<Rightarrow> (Some err, define, w)
                          | Inr subCmd \<Rightarrow>
                              (let noInput = (case GetBool env ''no-input'' of
                                                Inl _ \<Rightarrow> False | Inr b \<Rightarrow> b);
                                   args = [''issue'', name];
                                   args1 = (if noInput \<and> has_no_input subCmd
                                            then args @ [''--no-input''] else args)
                               in case fields_loop env action1 args1 of
                                    Inl err \<Rightarrow> (Some err, define, w)
                                  | Inr args2 \<Rightarrow>
                                      (let w1 = Printf env
                                             (''Running ['' @ Join args2 '' '' @ '']'' @ [CHR 0x0A]) w
                                       in case ExecuteC env args2 w1 of
                                            (Some err, keys, w2) \<Rightarrow> (Some err, define, w2)
                                          | (None, keys, w2) \<Rightarrow>
                                              if name = ''create'' \<or> name = ''clone'' then
                                                (case define of
                                                   None \<Rightarrow> (Some PanicAssignNilMap, define, w2)
                                                 | Some m \<Rightarrow>
                                                     (None,
                                                      Some (AList.update ''issue_key''
                                                        (issueKey (foldl Consume \<lparr>issueKey = []\<rparr> keys))
                                                        m),
                                                      w2))
                                              else (None, define, w2))))
                     | _ \<Rightarrow> (Some PanicInterfaceConversion, define, w)))
           | _ \<Rightarrow> (Some (InvalidActionProperty nm), define, w)))"

fun runScript_loop ::
  "'w Env \<Rightarrow> action list \<Rightarrow> defmap option \<Rightarrow> 'w \<Rightarrow> error option \<times> defmap option \<times> 'w" where
  "runScript_loop env [] define w = (None, define, w)"
| "runScript_loop env (action # rest) define w =
     (case runScript_body env action define w of
        (Some err, define1, w1) \<Rightarrow> (Some err, define1, w1)
      | (None, define1, w1) \<Rightarrow> runScript_loop env rest define1 w1)"

text \<open>
  \<open>runScript\<close> itself: the error it returns (\<open>None\<close> for \<open>nil\<close>) and the world it
  leaves. The project key and the API client only reach the user lookup, which is
  the parameter \<open>ul\<close>. \<open>SetupArgs\<close> assigns only to keys that it has read from the
  map: on a nil map it visits no key and the map stays nil, on a map it leaves a
  map.
\<close>

definition runScript ::
  "'w Env \<Rightarrow> 'w UserLookup \<Rightarrow> string \<Rightarrow> string list \<Rightarrow> 'w \<Rightarrow> error option \<times> 'w" where
  "runScript env ul filename args w =
     (case ReadScript env filename w of
        (Inl err, w1) \<Rightarrow> (Some err, w1)
      | (Inr script, w1) \<Rightarrow>
          (case GetBool env ''debug'' of
             Inl err \<Rightarrow> (Some err, w1)
           | Inr debug \<Rightarrow>
               (case SetupArgs args ul (contents (Define script)) w1 of
                  (Inl err, w2) \<Rightarrow> (Some err, w2)
                | (Inr define, w2) \<Rightarrow>
                    (case runScript_loop env (Actions script)
                            (case Define script of None \<Rightarrow> None | Some m \<Rightarrow> Some define) w2 of
                       (err, define1, w3) \<Rightarrow> (err, w3)))))"

subsection \<open>Collaborators for the examples\<close>

text \<open>
  A world that records what the collaborators were asked, a user lookup whose
  user always picks the option \<open>Me\<close>, and an environment in which every command
  exists, \<open>issue create\<close> reports the key \<open>PROJ-7\<close> and every execution succeeds.
  \<open>example_Marshal\<close> writes the compact JSON text of a value whose strings need no
  escaping and refuses any other value.
\<close>

datatype event =
    Prompted string
  | AskedMe
  | LookedUp string
  | Printed string
  | Executed "string list"

definition example_lookup :: "event list UserLookup" where
  "example_lookup =
     \<lparr>SelectUser = (\<lambda>prompt w. (Inr ''Me'', w @ [Prompted prompt])),
      FindMe = (\<lambda>w. (Inr \<lparr>AccountID = [], Email = ''alice@example.com'', Name = ''alice'',
                           DisplayName = ''Alice'', Active = True\<rparr>, w @ [AskedMe])),
      FindUser = (\<lambda>query w. (Inl (External ''user not found''), w @ [LookedUp query]))\<rparr>"

definition plain_char :: "char \<Rightarrow> bool" where
  "plain_char c \<longleftrightarrow>
     CHR '' '' \<le> c \<and> c \<le> CHR ''~'' \<and> c \<noteq> CHR 0x22 \<and> c \<noteq> CHR 0x5C \<and>
     c \<noteq> CHR ''<'' \<and> c \<noteq> CHR ''>'' \<and> c \<noteq> CHR ''&''"

definition json_string :: "string \<Rightarrow> string option" where
  "json_string s = (if list_all plain_char s then Some ([CHR 0x22] @ s @ [CHR 0x22]) else None)"

fun json_value :: "val \<Rightarrow> string option"
  and json_elems :: "val list \<Rightarrow> string list option"
  and json_entries :: "(string \<times> val) list \<Rightarrow> (string \<times> string) list option"
where
  "json_value (VString s) = json_string s"
| "json_value (VSlice elems) =
     (case json_elems elems of
        None \<Rightarrow> None
      | Some texts \<Rightarrow> Some (''['' @ Join texts '','' @ '']''))"
| "json_value (VMap entries) =
     (case json_entries entries of
        None \<Rightarrow> None
      | Some texts \<Rightarrow>
          Some (''{'' @ Join (map (\<lambda>kv. fst kv @ '':'' @ snd kv) (sort_key fst texts)) '','' @ ''}''))"
| "json_value (VOther ty repr) = None"
| "json_elems [] = Some []"
| "json_elems (v # rest) =
     (case json_value v of
        None \<Rightarrow> None
      | Some text \<Rightarrow>
          (case json_elems rest of None \<Rightarrow> None | Some texts \<Rightarrow> Some (text # texts)))"
| "json_entries [] = Some []"
| "json_entries (kv # rest) =
     (case json_string (fst kv) of
        None \<Rightarrow> None
      | Some key \<Rightarrow>
          (case json_value (snd kv) of
             None \<Rightarrow> None
           | Some text \<Rightarrow>
               (case json_entries rest of
                  None \<Rightarrow> None
                | Some texts \<Rightarrow> Some ((key, text) # texts))))"

definition example_Marshal :: "(string \<times> val) list \<Rightarrow> error + string" where
  "example_Marshal mapval =
     (case json_value (VMap mapval) of
        None \<Rightarrow> Inl (External ''json: unsupported value'')
      | Some text \<Rightarrow> Inr text)"

definition example_env :: "Script \<Rightarrow> event list Env" where
  "example_env script =
     \<lparr>ReadScript = (\<lambda>filename w. (Inr script, w)),
      GetBool = (\<lambda>name. Inr False),
      Find = (\<lambda>path. Inr \<lparr>has_no_input = True\<rparr>),
      Marshal = example_Marshal,
      Printf = (\<lambda>line w. w @ [Printed line]),
      ExecuteC = (\<lambda>args w.
        (None, if take 2 args = [''issue'', ''create''] then [''PROJ-7''] else [],
         w @ [Executed args]))\<rparr>"

subsection \<open>The strings of a value\<close>

text \<open>
  The strings that occur in a value, at any depth, in the order of a traversal from
  left to right. The keys of a map are not among them. This is how the statements
  below say that a string is part of an action.
\<close>

fun strings_of :: "val \<Rightarrow> string list"
  and strings_of_elems :: "val list \<Rightarrow> string list"
  and strings_of_entries :: "(string \<times> val) list \<Rightarrow> string list"
where
  "strings_of (VString s) = [s]"
| "strings_of (VSlice elems) = strings_of_elems elems"
| "strings_of (VMap entries) = strings_of_entries entries"
| "strings_of (VOther ty repr) = []"
| "strings_of_elems [] = []"
| "strings_of_elems (v # rest) = strings_of v @ strings_of_elems rest"
| "strings_of_entries [] = []"
| "strings_of_entries (kv # rest) = strings_of (snd kv) @ strings_of_entries rest"

subsection \<open>The flags of a custom field, as specified\<close>

text \<open>
  What the specification asks for one entry of \<open>custom\<close>: the flag \<open>--custom\<close> followed
  by \<open>name=value\<close>, or by \<open>json:name=\<close> and the encoded value when the value is a
  nested map. When the encoder refuses the nested map nothing is emitted for the
  entry (the translation fails as a whole).
\<close>

definition custom_flags :: "'w Env \<Rightarrow> string \<times> val \<Rightarrow> string list" where
  "custom_flags env entry =
     (case snd entry of
        VMap mapval \<Rightarrow>
          (case Marshal env mapval of
             Inl err \<Rightarrow> []
           | Inr strval \<Rightarrow> [''--custom'', ''json:'' @ fst entry @ ''='' @ strval])
      | fvalue \<Rightarrow> [''--custom'', fst entry @ ''='' @ Sprint fvalue])"

section \<open>The resolver\<close>

subsection \<open>The order of the keys\<close>

lemma Compare_less: "Compare a b < 0 \<longleftrightarrow> a < b"
  by (simp add: Compare_def)

lemma mset_insert_by: "mset (insert_by cmp x ys) = add_mset x (mset ys)"
  by (induction ys) auto

lemma set_insert_by: "set (insert_by cmp x ys) = insert x (set ys)"
  by (induction ys) auto

lemma sorted_insert_by:
  fixes f :: "'a \<Rightarrow> string"
  assumes "sorted_wrt (\<lambda>a b. f a \<le> f b) ys"
  shows "sorted_wrt (\<lambda>a b. f a \<le> f b) (insert_by (\<lambda>a b. Compare (f a) (f b)) x ys)"
  using assms
  by (induction ys) (auto simp: Compare_less set_insert_by)

lemma mset_foldl_insert_by:
  "mset (foldl (\<lambda>sorted x. insert_by cmp x sorted) acc xs) = mset acc + mset xs"
  by (induction xs arbitrary: acc) (auto simp: mset_insert_by)

lemma sorted_foldl_insert_by:
  fixes f :: "'a \<Rightarrow> string"
  shows "sorted_wrt (\<lambda>a b. f a \<le> f b) acc \<Longrightarrow>
    sorted_wrt (\<lambda>a b. f a \<le> f b)
      (foldl (\<lambda>sorted x. insert_by (\<lambda>a b. Compare (f a) (f b)) x sorted) acc xs)"
  by (induction xs arbitrary: acc) (auto simp: sorted_insert_by)

lemma mset_SetupArgs_keys: "mset (SetupArgs_keys defs) = mset (map fst defs)"
  by (simp add: SetupArgs_keys_def SortFunc_def mset_foldl_insert_by)

lemma set_SetupArgs_keys: "set (SetupArgs_keys defs) = fst ` set defs"
  using mset_SetupArgs_keys [of defs] by (metis set_mset_mset set_map)

lemma sorted_SetupArgs_keys:
  "sorted_wrt (\<lambda>a b. index_map defs a \<le> index_map defs b) (SetupArgs_keys defs)"
  unfolding SetupArgs_keys_def SortFunc_def
  by (rule sorted_foldl_insert_by) simp

lemma SetupArgs_keys_head_least:
  assumes "SetupArgs_keys defs = k0 # rest" and "k \<in> fst ` set defs"
  shows "index_map defs k0 \<le> index_map defs k"
proof -
  have "k \<in> set (SetupArgs_keys defs)"
    using assms(2) by (simp add: set_SetupArgs_keys)
  moreover have "sorted_wrt (\<lambda>a b. index_map defs a \<le> index_map defs b) (k0 # rest)"
    using sorted_SetupArgs_keys [of defs] assms(1) by simp
  ultimately show ?thesis using assms(1) by auto
qed


lemma SetupArgs_no_entries: "SetupArgs args ul [] w = (Inr [], w)"
  by (simp add: SetupArgs_def SetupArgs_keys_def SortFunc_def)

subsection \<open>The empty value\<close>

lemma SetupArgs_body_empty:
  "index_map defs key = [] \<Longrightarrow>
   SetupArgs_body args ul key defs w = (Inl PanicIndexOutOfRange, w)"
  by (simp add: SetupArgs_body_def)

text \<open>
  C9. A variable whose value is the empty string makes \<open>SetupArgs\<close> panic on
  \<open>val[0]\<close>: the empty string is the least value, so its key is visited first, before
  any collaborator is called. Hence \<open>SetupArgs\<close> can only return, with a map or with
  an error, when every value is non-empty.
\<close>

theorem SetupArgs_empty_value_panics:
  assumes "map_of defs k = Some []"
  shows "SetupArgs args ul defs w = (Inl PanicIndexOutOfRange, w)"
proof -
  have k: "k \<in> fst ` set defs"
    using assms by (force dest: map_of_SomeD)
  then have "set (SetupArgs_keys defs) \<noteq> {}"
    by (auto simp: set_SetupArgs_keys)
  then obtain k0 rest where keys: "SetupArgs_keys defs = k0 # rest"
    by (cases "SetupArgs_keys defs") auto
  have "index_map defs k = []" using assms by (simp add: index_map_def)
  with SetupArgs_keys_head_least [OF keys k] have "index_map defs k0 = []" by simp
  then show ?thesis
    by (simp add: SetupArgs_def keys SetupArgs_body_empty)
qed

theorem SetupArgs_empty_value_panics_witness:
  "map_of [(''who'', ''~me''), (''summary'', '''')] ''summary'' = Some [] \<and>
   SetupArgs [''widget''] example_lookup [(''who'', ''~me''), (''summary'', '''')] [] =
     (Inl PanicIndexOutOfRange, [])"
  using SetupArgs_empty_value_panics
    [of "[(''who'', ''~me''), (''summary'', '''')]" "''summary''" "[''widget'']" example_lookup "[]"]
  by simp

subsection \<open>Positional arguments\<close>

lemma Atoi_Some_hd:
  assumes "Atoi s = Some n"
  shows "s \<noteq> [] \<and> (hd s = CHR ''-'' \<or> hd s = CHR ''+'' \<or> is_digit (hd s))"
proof (cases s)
  case Nil
  with assms show ?thesis by (simp add: Atoi_def)
next
  case (Cons c cs)
  with assms show ?thesis
    by (auto simp: Atoi_def Let_def split: if_splits option.splits)
qed

lemma Atoi_Some_not_builtin:
  assumes "Atoi s = Some n"
  shows "\<not> (length s > 0 \<and> hd s = CHR ''~'')" "s \<noteq> ''choose_user''" "s \<noteq> ''me''"
  using Atoi_Some_hd [OF assms] by (auto simp: is_digit_def)

lemma SetupArgs_body_positional:
  assumes "index_map defs key = CHR ''~'' # varname" and "Atoi varname = Some ival"
  shows "SetupArgs_body args ul key defs w =
     (if int (length args) < ival then (Inl (MissingArgument ival key), w)
      else if ival - 1 < 0 then (Inl PanicIndexOutOfRange, w)
      else (Inr (AList.update key (args ! nat (ival - 1)) defs), w))"
  using assms Atoi_Some_not_builtin [OF assms(2)]
  by (auto simp: SetupArgs_body_def)

text \<open>
  An iteration changes at most the entry of its own key, and a run that returns a map
  has gone through the iteration of every key exactly once.
\<close>

lemma SetupArgs_body_result:
  assumes "SetupArgs_body args ul key defs w = (Inr defs1, w1)"
  shows "defs1 = defs \<or> (\<exists>v. defs1 = AList.update key v defs)"
  using assms
  by (auto simp: SetupArgs_body_def Let_def
      split: list.splits if_splits sum.splits prod.splits option.splits)

lemma SetupArgs_body_other_keys:
  assumes "SetupArgs_body args ul key defs w = (Inr defs1, w1)" and "k \<noteq> key"
  shows "map_of defs1 k = map_of defs k"
  using SetupArgs_body_result [OF assms(1)] assms(2) by (auto simp: update_conv')

lemma SetupArgs_loop_other_keys:
  assumes "SetupArgs_loop args ul keys defs w = (Inr defs', w')" and "k \<notin> set keys"
  shows "map_of defs' k = map_of defs k"
  using assms
proof (induction keys arbitrary: defs w)
  case Nil
  then show ?case by simp
next
  case (Cons key keys)
  from Cons.prems(1) obtain defs1 w1
    where body: "SetupArgs_body args ul key defs w = (Inr defs1, w1)"
      and rest: "SetupArgs_loop args ul keys defs1 w1 = (Inr defs', w')"
    by (auto split: prod.splits sum.splits)
  from Cons.prems(2) have "k \<noteq> key" and "k \<notin> set keys" by auto
  from Cons.IH [OF rest this(2)] SetupArgs_body_other_keys [OF body this(1)]
  show ?case by simp
qed

lemma SetupArgs_loop_visits:
  assumes "SetupArgs_loop args ul keys defs w = (Inr defs', w')"
    and "key \<in> set keys" and "distinct keys"
  shows "\<exists>defs0 w0 defs1 w1.
           SetupArgs_body args ul key defs0 w0 = (Inr defs1, w1) \<and>
           map_of defs0 key = map_of defs key \<and> map_of defs' key = map_of defs1 key"
  using assms
proof (induction keys arbitrary: defs w)
  case Nil
  then show ?case by simp
next
  case (Cons k keys)
  from Cons.prems(1) obtain defs1 w1
    where body: "SetupArgs_body args ul k defs w = (Inr defs1, w1)"
      and rest: "SetupArgs_loop args ul keys defs1 w1 = (Inr defs', w')"
    by (auto split: prod.splits sum.splits)
  show ?case
  proof (cases "k = key")
    case True
    with Cons.prems(3) have "key \<notin> set keys" by simp
    from SetupArgs_loop_other_keys [OF rest this] body True show ?thesis by blast
  next
    case False
    with Cons.prems have "key \<in> set keys" and "distinct keys" by auto
    from Cons.IH [OF rest this] obtain defs0 w0 defs2 w2
      where "SetupArgs_body args ul key defs0 w0 = (Inr defs2, w2)"
        and "map_of defs0 key = map_of defs1 key" and "map_of defs' key = map_of defs2 key"
      by blast
    moreover have "map_of defs1 key = map_of defs key"
      using SetupArgs_body_other_keys [OF body] False by auto
    ultimately show ?thesis by (metis)
  qed
qed

lemma distinct_SetupArgs_keys: "distinct (SetupArgs_keys defs) = distinct (map fst defs)"
  using mset_SetupArgs_keys [of defs] by (rule mset_eq_imp_distinct_iff)

lemma SetupArgs_visits:
  assumes "SetupArgs args ul defs w = (Inr defs', w')"
    and "map_of defs key = Some val" and "distinct (map fst defs)"
  shows "\<exists>defs0 w0 defs1 w1.
           SetupArgs_body args ul key defs0 w0 = (Inr defs1, w1) \<and>
           index_map defs0 key = val \<and> map_of defs' key = map_of defs1 key"
proof -
  have "key \<in> set (SetupArgs_keys defs)"
    using assms(2) by (force simp: set_SetupArgs_keys dest: map_of_SomeD)
  moreover have "distinct (SetupArgs_keys defs)"
    using assms(3) by (simp add: distinct_SetupArgs_keys)
  ultimately obtain defs0 w0 defs1 w1
    where "SetupArgs_body args ul key defs0 w0 = (Inr defs1, w1)"
      and "map_of defs0 key = map_of defs key" and "map_of defs' key = map_of defs1 key"
    using SetupArgs_loop_visits [of args ul "SetupArgs_keys defs" defs w defs' w' key] assms(1)
    unfolding SetupArgs_def by blast
  moreover from this(2) assms(2) have "index_map defs0 key = val"
    by (simp add: index_map_def)
  ultimately show ?thesis by blast
qed

lemma SetupArgs_positional_run:
  assumes "SetupArgs args ul defs w = (Inr defs', w')"
    and "map_of defs key = Some (CHR ''~'' # varname)" and "distinct (map fst defs)"
    and "Atoi varname = Some N"
  shows "1 \<le> N \<and> N \<le> int (length args) \<and> map_of defs' key = Some (args ! (nat N - 1))"
proof -
  from SetupArgs_visits [OF assms(1-3)] obtain defs0 w0 defs1 w1
    where body: "SetupArgs_body args ul key defs0 w0 = (Inr defs1, w1)"
      and val: "index_map defs0 key = CHR ''~'' # varname"
      and res: "map_of defs' key = map_of defs1 key"
    by blast
  have "nat (N - 1) = nat N - 1" by simp
  with body SetupArgs_body_positional [OF val assms(4), of args ul w0] res
  show ?thesis
    by (auto simp: update_conv' split: if_splits)
qed

text \<open>
  C5. Let the value of \<open>key\<close> be \<open>~\<close> followed by text that \<open>Atoi\<close> reads as \<open>N\<close>,
  with \<open>N\<close> at least 1. With at least \<open>N\<close> arguments, the iteration for \<open>key\<close> stores
  the \<open>N\<close>-th argument (counting from 1) under \<open>key\<close> and changes nothing else; with
  fewer, it returns the error for a missing argument. And whenever \<open>SetupArgs\<close> as a
  whole returns a map, there were at least \<open>N\<close> arguments and the map holds the
  \<open>N\<close>-th of them under \<open>key\<close>.
\<close>

theorem SetupArgs_positional_argument:
  assumes "index_map defs key = CHR ''~'' # varname"
    and "Atoi varname = Some N"
    and "1 \<le> N"
  shows "(N \<le> int (length args) \<longrightarrow>
            SetupArgs_body args ul key defs w =
              (Inr (AList.update key (args ! (nat N - 1)) defs), w) \<and>
            map_of (AList.update key (args ! (nat N - 1)) defs) key = Some (args ! (nat N - 1)) \<and>
            (\<forall>k. k \<noteq> key \<longrightarrow>
               map_of (AList.update key (args ! (nat N - 1)) defs) k = map_of defs k)) \<and>
         (int (length args) < N \<longrightarrow>
            SetupArgs_body args ul key defs w = (Inl (MissingArgument N key), w)) \<and>
         (distinct (map fst defs) \<and> SetupArgs args ul defs w = (Inr defs', w') \<longrightarrow>
            N \<le> int (length args) \<and> map_of defs' key = Some (args ! (nat N - 1)))"
proof -
  have "nat (N - 1) = nat N - 1" by simp
  then have body: "(N \<le> int (length args) \<longrightarrow>
            SetupArgs_body args ul key defs w =
              (Inr (AList.update key (args ! (nat N - 1)) defs), w) \<and>
            map_of (AList.update key (args ! (nat N - 1)) defs) key = Some (args ! (nat N - 1)) \<and>
            (\<forall>k. k \<noteq> key \<longrightarrow>
               map_of (AList.update key (args ! (nat N - 1)) defs) k = map_of defs k)) \<and>
         (int (length args) < N \<longrightarrow>
            SetupArgs_body args ul key defs w = (Inl (MissingArgument N key), w))"
    using assms(3) SetupArgs_body_positional [OF assms(1,2), of args ul w]
    by (auto simp: update_conv')
  have stored: "map_of defs key = Some (CHR ''~'' # varname)"
    using assms(1) by (auto simp: index_map_def split: option.splits)
  have "N \<le> int (length args) \<and> map_of defs' key = Some (args ! (nat N - 1))"
    if "distinct (map fst defs)" and "SetupArgs args ul defs w = (Inr defs', w')"
    using SetupArgs_positional_run [OF that(2) stored that(1) assms(2)] by simp
  with body show ?thesis by blast
qed

theorem SetupArgs_positional_argument_witness:
  "index_map [(''name'', ''~2'')] ''name'' = CHR ''~'' # ''2'' \<and> Atoi ''2'' = Some 2 \<and>
   (1::int) \<le> 2 \<and>
   SetupArgs_body [''gadget'', ''widget''] example_lookup ''name'' [(''name'', ''~2'')] [] =
     (Inr [(''name'', ''widget'')], []) \<and>
   SetupArgs_body [''gadget''] example_lookup ''name'' [(''name'', ''~2'')] [] =
     (Inl (MissingArgument 2 ''name''), []) \<and>
   SetupArgs [''gadget'', ''widget''] example_lookup [(''name'', ''~2'')] [] =
     (Inr [(''name'', ''widget'')], []) \<and>
   SetupArgs [''widget''] example_lookup [(''name'', ''~1'')] [] =
     (Inr [(''name'', ''widget'')], [])"
proof -
  have h1: "index_map [(''name'', ''~2'')] ''name'' = CHR ''~'' # ''2''"
    by (simp add: index_map_def)
  have h2: "Atoi ''2'' = Some 2"
    by (simp add: Atoi_def is_digit_def)
  have h3: "(1::int) \<le> 2" by simp
  have run2: "SetupArgs [''gadget'', ''widget''] example_lookup [(''name'', ''~2'')] [] =
     (Inr [(''name'', ''widget'')], [])"
    by code_simp
  have run1: "SetupArgs [''widget''] example_lookup [(''name'', ''~1'')] [] =
     (Inr [(''name'', ''widget'')], [])"
    by code_simp
  show ?thesis
    using h1 h2 h3 run1 run2
      SetupArgs_positional_argument [OF h1 h2 h3, of "[''gadget'', ''widget'']" example_lookup "[]"]
      SetupArgs_positional_argument [OF h1 h2 h3, of "[''gadget'']" example_lookup "[]"]
    by simp
qed

text \<open>
  C10. Let the value of \<open>key\<close> be \<open>~\<close> followed by text that \<open>Atoi\<close> reads as \<open>ival\<close>.
  The iteration for \<open>key\<close> panics on \<open>args[ival - 1]\<close> exactly when \<open>ival\<close> is zero or
  negative: the guard \<open>len(args) < ival\<close> is then false whatever the arguments are.
  The loop stops there, with neither of the two errors of the \<open>else\<close> branch, and so
  \<open>SetupArgs\<close> as a whole never returns a map for such a \<open>Define\<close>.
\<close>

theorem SetupArgs_nonpositive_index_panics:
  assumes "index_map defs key = CHR ''~'' # varname"
    and "Atoi varname = Some ival"
  shows "(SetupArgs_body args ul key defs w = (Inl PanicIndexOutOfRange, w) \<longleftrightarrow> ival \<le> 0) \<and>
         (ival \<le> 0 \<longrightarrow>
            \<not> int (length args) < ival \<and>
            SetupArgs_loop args ul (key # keys) defs w = (Inl PanicIndexOutOfRange, w)) \<and>
         (ival \<le> 0 \<and> distinct (map fst defs) \<longrightarrow>
            (\<forall>defs' w'. SetupArgs args ul defs w \<noteq> (Inr defs', w')))"
proof -
  have stored: "map_of defs key = Some (CHR ''~'' # varname)"
    using assms(1) by (auto simp: index_map_def split: option.splits)
  have "SetupArgs args ul defs w \<noteq> (Inr defs', w')"
    if "ival \<le> 0" and "distinct (map fst defs)" for defs' w'
    using SetupArgs_positional_run [OF _ stored that(2) assms(2), of args ul w defs' w'] that(1)
    by auto
  then show ?thesis
    using SetupArgs_body_positional [OF assms, of args ul w]
    by auto
qed

theorem SetupArgs_nonpositive_index_panics_witness:
  "index_map [(''name'', ''~0'')] ''name'' = CHR ''~'' # ''0'' \<and> Atoi ''0'' = Some 0 \<and>
   index_map [(''name'', ''~-1'')] ''name'' = CHR ''~'' # ''-1'' \<and> Atoi ''-1'' = Some (- 1) \<and>
   SetupArgs_loop [''widget''] example_lookup [''name''] [(''name'', ''~0'')] [] =
     (Inl PanicIndexOutOfRange, []) \<and>
   SetupArgs_loop [''widget''] example_lookup [''name''] [(''name'', ''~-1'')] [] =
     (Inl PanicIndexOutOfRange, [])"
proof -
  have h1: "index_map [(''name'', ''~0'')] ''name'' = CHR ''~'' # ''0''"
    by (simp add: index_map_def)
  have h2: "Atoi ''0'' = Some 0"
    by (simp add: Atoi_def is_digit_def)
  have h3: "index_map [(''name'', ''~-1'')] ''name'' = CHR ''~'' # ''-1''"
    by (simp add: index_map_def)
  have h4: "Atoi ''-1'' = Some (- 1)"
    by (simp add: Atoi_def is_digit_def)
  show ?thesis
    using h1 h2 h3 h4
      SetupArgs_nonpositive_index_panics [OF h1 h2, of "[''widget'']" example_lookup "[]" "[]"]
      SetupArgs_nonpositive_index_panics [OF h3 h4, of "[''widget'']" example_lookup "[]" "[]"]
    by simp
qed

subsection \<open>The escaped tilde\<close>

text \<open>
  C1. A value that starts with two tildes loses both of them: \<open>~~foo\<close> becomes
  \<open>foo\<close>, not \<open>~foo\<close>. The key is visited once, so the new value is not read again.
\<close>

theorem SetupArgs_escaped_tilde_drops_both:
  "SetupArgs args ul [(''x'', ''~~foo'')] w = (Inr [(''x'', ''foo'')], w) \<and>
   SetupArgs args ul [(''x'', ''~~foo'')] w \<noteq> (Inr [(''x'', ''~foo'')], w)"
  by (simp add: SetupArgs_def SetupArgs_keys_def SortFunc_def SetupArgs_body_def index_map_def)

section \<open>The interpolator\<close>

subsection \<open>Undefined variables\<close>

lemma not_is_word_dollar: "\<not> is_word CHR ''$''"
  by (simp add: is_word_def)

lemma takeWhile_stop: "\<not> P y \<Longrightarrow> takeWhile P (xs @ y # ys) = takeWhile P xs"
  by (induction xs) auto

lemma dropWhile_stop: "\<not> P y \<Longrightarrow> dropWhile P (xs @ y # ys) = dropWhile P xs @ y # ys"
  by (induction xs) auto

lemma takeWhile_name:
  assumes "list_all is_word name" and "rest = [] \<or> \<not> is_word (hd rest)"
  shows "takeWhile is_word (name @ rest) = name"
proof (cases rest)
  case Nil
  with assms(1) show ?thesis by (simp add: list_all_iff)
next
  case (Cons r rs)
  with assms show ?thesis by (simp add: list_all_iff takeWhile_append2 takeWhile_stop)
qed

text \<open>
  Wherever a dollar sign is followed by a run of word characters, the pattern
  matches there and the match is the dollar sign with the whole run: no earlier
  match can swallow the dollar sign, which is not a word character.
\<close>

lemma find_from_reference:
  assumes "name \<noteq> []" and "list_all is_word name" and "rest = [] \<or> \<not> is_word (hd rest)"
  shows "(i + length pre, i + length pre + 1 + length name)
           \<in> set (find_from i (pre @ CHR ''$'' # name @ rest))"
proof (induction "length pre" arbitrary: pre i rule: less_induct)
  case less
  show ?case
  proof (cases pre)
    case Nil
    then show ?thesis
      using assms(1) takeWhile_name [OF assms(2,3)] by simp
  next
    case (Cons c pre')
    let ?tail = "pre' @ CHR ''$'' # name @ rest"
    show ?thesis
    proof (cases "c = CHR ''$'' \<and> takeWhile is_word ?tail \<noteq> []")
      case True
      have t: "takeWhile is_word ?tail = takeWhile is_word pre'"
        by (rule takeWhile_stop) (rule not_is_word_dollar)
      have d: "dropWhile is_word ?tail = dropWhile is_word pre' @ CHR ''$'' # name @ rest"
        by (rule dropWhile_stop) (rule not_is_word_dollar)
      have len: "length (takeWhile is_word pre') + length (dropWhile is_word pre') = length pre'"
        by (metis length_append takeWhile_dropWhile_id)
      have "length (dropWhile is_word pre') < length pre"
        using Cons by (simp add: length_dropWhile_le less_Suc_eq_le)
      from less [OF this, of "i + 1 + length (takeWhile is_word pre')"]
      have "(i + length pre, i + length pre + 1 + length name)
              \<in> set (find_from (i + 1 + length (takeWhile is_word pre'))
                        (dropWhile is_word pre' @ CHR ''$'' # name @ rest))"
        using len Cons by (simp add: add.assoc)
      then show ?thesis
        using True Cons t d by simp
    next
      case False
      have "length pre' < length pre" using Cons by simp
      from less [OF this, of "i + 1"] show ?thesis
        using False Cons by auto
    qed
  qed
qed

lemma slice_reference:
  "slice (pre @ CHR ''$'' # name @ rest) (length pre + 1) (length pre + 1 + length name) = name"
  by (simp add: slice_def)

lemma interpolate_matches_undefined:
  assumes "match \<in> set matches"
    and "map_of defs (slice obj (fst match + 1) (snd match)) = None"
  shows "\<exists>v. interpolate_matches obj defs matches newString lastIdx = Inl (UnknownVariable v) \<and>
             map_of defs v = None"
  using assms
proof (induction matches arbitrary: newString lastIdx)
  case Nil
  then show ?case by simp
next
  case (Cons m ms)
  show ?case
  proof (cases "map_of defs (slice obj (fst m + 1) (snd m))")
    case None
    then show ?thesis by simp
  next
    case (Some v)
    with Cons.prems have "match \<in> set ms" by auto
    from Cons.IH [OF this Cons.prems(2)] show ?thesis
      using Some by (simp add: Let_def)
  qed
qed

lemma interpolateVars_reference_undefined:
  assumes "name \<noteq> []" and "list_all is_word name" and "rest = [] \<or> \<not> is_word (hd rest)"
    and "map_of defs name = None"
  shows "\<exists>v. interpolateVars (VString (pre @ CHR ''$'' # name @ rest)) defs = Inl (UnknownVariable v) \<and>
             map_of defs v = None"
proof -
  let ?obj = "pre @ CHR ''$'' # name @ rest"
  have m: "(length pre, length pre + 1 + length name) \<in> set (FindAllStringIndex ?obj)"
    using find_from_reference [OF assms(1-3), of 0 pre] by (simp add: FindAllStringIndex_def)
  have "map_of defs (slice ?obj (fst (length pre, length pre + 1 + length name) + 1)
          (snd (length pre, length pre + 1 + length name))) = None"
    using assms(4) slice_reference [of pre name rest] by simp
  from interpolate_matches_undefined [OF m this, of "[]" 0]
  show ?thesis by auto
qed

lemma interpolateVars_string_fails:
  "s \<in> set (strings_of v) \<Longrightarrow> interpolateVars (VString s) defs = Inl e \<Longrightarrow>
     \<exists>e'. interpolateVars v defs = Inl e'"
  "s \<in> set (strings_of_elems vs) \<Longrightarrow> interpolateVars (VString s) defs = Inl e \<Longrightarrow>
     \<exists>e'. interpolate_slice vs defs = Inl e'"
  "s \<in> set (strings_of_entries kvs) \<Longrightarrow> interpolateVars (VString s) defs = Inl e \<Longrightarrow>
     \<exists>e'. interpolate_map kvs defs = Inl e'"
proof (induction v defs and vs defs and kvs defs
    rule: interpolateVars_interpolate_slice_interpolate_map.induct)
  case (1 obj "define")
  then show ?case by simp
next
  case (2 obj "define")
  then show ?case by (auto split: sum.splits)
next
  case (3 obj "define")
  then show ?case by (auto split: sum.splits)
next
  case (4 ty repr "define")
  then show ?case by simp
next
  case (5 "define")
  then show ?case by simp
next
  case (6 v rest "define")
  then show ?case by (auto split: sum.splits)
next
  case (7 "define")
  then show ?case by simp
next
  case (8 kv rest "define")
  then show ?case by (auto split: sum.splits)
qed

lemma runScript_body_interpolation_fails:
  assumes "interpolate_map action (contents define) = Inl e"
  shows "\<exists>e'. runScript_body env action define w = (Some e', define, w)"
  using assms
  by (auto simp: runScript_body_def split: option.splits val.splits)

text \<open>
  C3. Take a string in which a dollar sign is followed by the word characters
  \<open>name\<close> and then by the end of the string or by a character that is not a word
  character, and a \<open>Define\<close> without \<open>name\<close>. Interpolating the string returns the error
  for an unknown variable, naming a variable that \<open>Define\<close> lacks (the leftmost such
  reference of the string), and so returns no string at all. When the string occurs
  anywhere in an action, the iteration of \<open>runScript\<close> for that action returns an
  error before it touches the world or \<open>Define\<close>, and the loop over the actions stops
  with that error; this holds for \<open>Define\<close> a map with these entries and, when there
  are none, also for \<open>Define\<close> nil.
\<close>

theorem interpolateVars_undefined_variable:
  assumes "name \<noteq> []"
    and "list_all is_word name"
    and "rest = [] \<or> \<not> is_word (hd rest)"
    and "map_of defs name = None"
  shows "(\<exists>v. interpolateVars (VString (pre @ CHR ''$'' # name @ rest)) defs =
                 Inl (UnknownVariable v) \<and> map_of defs v = None) \<and>
         (\<forall>r. interpolateVars (VString (pre @ CHR ''$'' # name @ rest)) defs \<noteq> Inr r) \<and>
         (pre @ CHR ''$'' # name @ rest \<in> set (strings_of (VMap action)) \<and>
          contents dmap = defs \<longrightarrow>
            (\<exists>e. runScript_body env action dmap w = (Some e, dmap, w) \<and>
                 runScript_loop env (action # actions) dmap w = (Some e, dmap, w)))"
proof -
  let ?obj = "pre @ CHR ''$'' # name @ rest"
  from interpolateVars_reference_undefined [OF assms, of pre]
  obtain v where v: "interpolateVars (VString ?obj) defs = Inl (UnknownVariable v)"
    and undefined: "map_of defs v = None"
    by blast
  have "\<exists>e. runScript_body env action dmap w = (Some e, dmap, w) \<and>
            runScript_loop env (action # actions) dmap w = (Some e, dmap, w)"
    if occurs: "?obj \<in> set (strings_of (VMap action))" and same: "contents dmap = defs"
  proof -
    from occurs have "?obj \<in> set (strings_of_entries action)" by simp
    from interpolateVars_string_fails(3) [OF this v]
    obtain e' where "interpolate_map action (contents dmap) = Inl e'"
      using same by blast
    from runScript_body_interpolation_fails [OF this, of env w]
    obtain e where "runScript_body env action dmap w = (Some e, dmap, w)" by blast
    then show ?thesis by simp
  qed
  with v undefined show ?thesis by auto
qed

theorem interpolateVars_undefined_variable_witness:
  "''issue_key'' \<noteq> [] \<and> list_all is_word ''issue_key'' \<and>
   \<not> is_word (hd '' now'') \<and>
   map_of [(''name'', ''widget'')] ''issue_key'' = None \<and>
   (\<exists>v. interpolateVars (VString (''see '' @ CHR ''$'' # ''issue_key'' @ '' now''))
           [(''name'', ''widget'')] = Inl (UnknownVariable v)) \<and>
   (\<exists>e. runScript_body (example_env \<lparr>Define = None, Actions = []\<rparr>)
           [(''action'', VString ''comment''), (''args'', VSlice [VString ''see $issue_key now''])]
           (Some [(''name'', ''widget'')]) [] = (Some e, Some [(''name'', ''widget'')], [])) \<and>
   runScript_body (example_env \<lparr>Define = None, Actions = []\<rparr>)
     [(''action'', VString ''comment''), (''args'', VSlice [VString ''see $issue_key now''])]
     (Some [(''name'', ''widget'')]) [] =
       (Some (UnknownVariable ''issue_key''), Some [(''name'', ''widget'')], [])"
proof -
  have h1: "''issue_key'' \<noteq> []" by simp
  have h2: "list_all is_word ''issue_key''" by (simp add: is_word_def)
  have h3: "'' now'' = [] \<or> \<not> is_word (hd '' now'')" by (simp add: is_word_def)
  have h4: "map_of [(''name'', ''widget'')] ''issue_key'' = None" by simp
  have occurs: "''see '' @ CHR ''$'' # ''issue_key'' @ '' now'' \<in> set (strings_of (VMap
      [(''action'', VString ''comment''), (''args'', VSlice [VString ''see $issue_key now''])]))"
    by simp
  have same: "contents (Some [(''name'', ''widget'')]) = [(''name'', ''widget'')]"
    by (simp add: contents_def)
  note c = interpolateVars_undefined_variable [OF h1 h2 h3 h4, where pre = "''see ''"
      and action = "[(''action'', VString ''comment''), (''args'', VSlice [VString ''see $issue_key now''])]"
      and env = "example_env \<lparr>Define = None, Actions = []\<rparr>" and w = "[]" and actions = "[]"
      and dmap = "Some [(''name'', ''widget'')]"]
  have c1: "\<exists>v. interpolateVars (VString (''see '' @ CHR ''$'' # ''issue_key'' @ '' now''))
           [(''name'', ''widget'')] = Inl (UnknownVariable v)"
    using c by blast
  have c2: "\<exists>e. runScript_body (example_env \<lparr>Define = None, Actions = []\<rparr>)
           [(''action'', VString ''comment''), (''args'', VSlice [VString ''see $issue_key now''])]
           (Some [(''name'', ''widget'')]) [] = (Some e, Some [(''name'', ''widget'')], [])"
    using c occurs same by blast
  have c3: "runScript_body (example_env \<lparr>Define = None, Actions = []\<rparr>)
     [(''action'', VString ''comment''), (''args'', VSlice [VString ''see $issue_key now''])]
     (Some [(''name'', ''widget'')]) [] =
       (Some (UnknownVariable ''issue_key''), Some [(''name'', ''widget'')], [])"
    by code_simp
  have h3': "\<not> is_word (hd '' now'')" by (simp add: is_word_def)
  from h1 h2 h3' h4 c1 c2 c3 show ?thesis by blast
qed

subsection \<open>Slices and maps\<close>

lemma interpolate_slice_Inr:
  "interpolate_slice xs defs = Inr ys \<Longrightarrow>
     list_all2 (\<lambda>x y. interpolateVars x defs = Inr y) xs ys"
  by (induction xs arbitrary: ys) (auto split: sum.splits)

lemma interpolate_slice_all2:
  "list_all2 (\<lambda>x y. interpolateVars x defs = Inr y) xs ys \<Longrightarrow>
     interpolate_slice xs defs = Inr ys"
  by (induction xs ys rule: list_all2_induct) auto

lemma interpolate_slice_iff:
  "interpolate_slice xs defs = Inr ys \<longleftrightarrow>
     list_all2 (\<lambda>x y. interpolateVars x defs = Inr y) xs ys"
  using interpolate_slice_Inr interpolate_slice_all2 by blast

lemma interpolate_map_Inr:
  "interpolate_map kvs defs = Inr kvs' \<Longrightarrow>
     list_all2 (\<lambda>kv kv'. fst kv' = fst kv \<and> interpolateVars (snd kv) defs = Inr (snd kv')) kvs kvs'"
  by (induction kvs arbitrary: kvs') (auto split: sum.splits)

lemma interpolate_map_all2:
  "list_all2 (\<lambda>kv kv'. fst kv' = fst kv \<and> interpolateVars (snd kv) defs = Inr (snd kv')) kvs kvs' \<Longrightarrow>
     interpolate_map kvs defs = Inr kvs'"
  by (induction kvs kvs' rule: list_all2_induct) (auto simp: prod_eq_iff)

lemma interpolate_map_iff:
  "interpolate_map kvs defs = Inr kvs' \<longleftrightarrow>
     list_all2 (\<lambda>kv kv'. fst kv' = fst kv \<and> interpolateVars (snd kv) defs = Inr (snd kv')) kvs kvs'"
  using interpolate_map_Inr interpolate_map_all2 by blast

lemma list_all2_exists:
  "(\<forall>x\<in>set xs. \<exists>y. P x y) \<Longrightarrow> \<exists>ys. list_all2 P xs ys"
proof (induction xs)
  case Nil
  then show ?case by simp
next
  case (Cons x xs)
  then obtain y ys where "P x y" "list_all2 P xs ys" by auto
  then have "list_all2 P (x # xs) (y # ys)" by simp
  then show ?case by blast
qed

lemma interpolate_slice_nth:
  "interpolate_slice xs defs = Inr ys \<longleftrightarrow>
     length ys = length xs \<and> (\<forall>i<length xs. interpolateVars (xs ! i) defs = Inr (ys ! i))"
  unfolding interpolate_slice_iff list_all2_conv_all_nth by auto

lemma interpolate_map_nth:
  "interpolate_map kvs defs = Inr kvs' \<longleftrightarrow>
     map fst kvs' = map fst kvs \<and>
     (\<forall>i<length kvs. interpolateVars (snd (kvs ! i)) defs = Inr (snd (kvs' ! i)))"
  unfolding interpolate_map_iff list_all2_conv_all_nth list_eq_iff_nth_eq by auto

lemma interpolate_slice_succeeds_iff:
  "(\<exists>ys. interpolate_slice xs defs = Inr ys) \<longleftrightarrow>
     (\<forall>x\<in>set xs. \<exists>y. interpolateVars x defs = Inr y)"
proof
  assume "\<exists>ys. interpolate_slice xs defs = Inr ys"
  then obtain ys where "\<forall>i<length xs. interpolateVars (xs ! i) defs = Inr (ys ! i)"
    by (auto simp: interpolate_slice_nth)
  then show "\<forall>x\<in>set xs. \<exists>y. interpolateVars x defs = Inr y"
    by (metis in_set_conv_nth)
next
  assume "\<forall>x\<in>set xs. \<exists>y. interpolateVars x defs = Inr y"
  from list_all2_exists [of xs "\<lambda>x y. interpolateVars x defs = Inr y", OF this]
  show "\<exists>ys. interpolate_slice xs defs = Inr ys"
    by (simp add: interpolate_slice_iff)
qed

lemma interpolate_map_succeeds_iff:
  "(\<exists>kvs'. interpolate_map kvs defs = Inr kvs') \<longleftrightarrow>
     (\<forall>kv\<in>set kvs. \<exists>y. interpolateVars (snd kv) defs = Inr y)"
proof
  assume "\<exists>kvs'. interpolate_map kvs defs = Inr kvs'"
  then obtain kvs' :: "(string \<times> val) list" where
    "\<forall>i<length kvs. interpolateVars (snd (kvs ! i)) defs = Inr (snd (kvs' ! i))"
    by (auto simp: interpolate_map_nth)
  then show "\<forall>kv\<in>set kvs. \<exists>y. interpolateVars (snd kv) defs = Inr y"
    by (metis in_set_conv_nth)
next
  assume a: "\<forall>kv\<in>set kvs. \<exists>y. interpolateVars (snd kv) defs = Inr y"
  have "\<forall>kv\<in>set kvs. \<exists>kv'. fst kv' = fst kv \<and> interpolateVars (snd kv) defs = Inr (snd kv')"
  proof
    fix kv assume "kv \<in> set kvs"
    with a obtain y where "interpolateVars (snd kv) defs = Inr y" by blast
    then have "fst (fst kv, y) = fst kv \<and> interpolateVars (snd kv) defs = Inr (snd (fst kv, y))"
      by simp
    then show "\<exists>kv'. fst kv' = fst kv \<and> interpolateVars (snd kv) defs = Inr (snd kv')"
      by blast
  qed
  from list_all2_exists [OF this]
  show "\<exists>kvs'. interpolate_map kvs defs = Inr kvs'"
    by (simp add: interpolate_map_iff)
qed

text \<open>
  C8. Interpolating a slice succeeds exactly when interpolating each element does,
  and the results are then exactly the slices of the same length whose \<open>i\<close>-th element
  is the interpolated \<open>i\<close>-th element. Interpolating a map succeeds exactly when
  interpolating each value does, and the results are then exactly the maps with the
  same keys, each with its value interpolated.
\<close>

theorem interpolateVars_preserves_shape:
  "(interpolateVars (VSlice xs) defs = Inr r \<longleftrightarrow>
      (\<exists>ys. r = VSlice ys \<and> length ys = length xs \<and>
            (\<forall>i<length xs. interpolateVars (xs ! i) defs = Inr (ys ! i)))) \<and>
   (interpolateVars (VMap kvs) defs = Inr r \<longleftrightarrow>
      (\<exists>kvs'. r = VMap kvs' \<and> map fst kvs' = map fst kvs \<and>
            (\<forall>i<length kvs. interpolateVars (snd (kvs ! i)) defs = Inr (snd (kvs' ! i))))) \<and>
   ((\<exists>r. interpolateVars (VSlice xs) defs = Inr r) \<longleftrightarrow>
      (\<forall>x\<in>set xs. \<exists>y. interpolateVars x defs = Inr y)) \<and>
   ((\<exists>r. interpolateVars (VMap kvs) defs = Inr r) \<longleftrightarrow>
      (\<forall>kv\<in>set kvs. \<exists>y. interpolateVars (snd kv) defs = Inr y))"
proof -
  have "interpolateVars (VSlice xs) defs = Inr r \<longleftrightarrow>
      (\<exists>ys. r = VSlice ys \<and> interpolate_slice xs defs = Inr ys)"
    by (auto split: sum.splits)
  then have 1: "interpolateVars (VSlice xs) defs = Inr r \<longleftrightarrow>
      (\<exists>ys. r = VSlice ys \<and> length ys = length xs \<and>
            (\<forall>i<length xs. interpolateVars (xs ! i) defs = Inr (ys ! i)))"
    by (simp only: interpolate_slice_nth)
  have "interpolateVars (VMap kvs) defs = Inr r \<longleftrightarrow>
      (\<exists>kvs'. r = VMap kvs' \<and> interpolate_map kvs defs = Inr kvs')"
    by (auto split: sum.splits)
  then have 2: "interpolateVars (VMap kvs) defs = Inr r \<longleftrightarrow>
      (\<exists>kvs'. r = VMap kvs' \<and> map fst kvs' = map fst kvs \<and>
            (\<forall>i<length kvs. interpolateVars (snd (kvs ! i)) defs = Inr (snd (kvs' ! i))))"
    by (simp only: interpolate_map_nth)
  have 3: "(\<exists>r. interpolateVars (VSlice xs) defs = Inr r) \<longleftrightarrow>
      (\<forall>x\<in>set xs. \<exists>y. interpolateVars x defs = Inr y)"
    using interpolate_slice_succeeds_iff [of xs defs] by (auto split: sum.splits)
  have 4: "(\<exists>r. interpolateVars (VMap kvs) defs = Inr r) \<longleftrightarrow>
      (\<forall>kv\<in>set kvs. \<exists>y. interpolateVars (snd kv) defs = Inr y)"
    using interpolate_map_succeeds_iff [of kvs defs] by (auto split: sum.splits)
  from 1 2 3 4 show ?thesis by blast
qed
theorem interpolateVars_preserves_shape_witness:
  "interpolateVars (VSlice [VString ''$a'', VString ''b'']) [(''a'', ''1'')] =
     Inr (VSlice [VString ''1'', VString ''b'']) \<and>
   length [VString ''1'', VString ''b''] = length [VString ''$a'', VString ''b''] \<and>
   interpolateVars (VMap [(''k'', VString ''$a''), (''l'', VSlice [])]) [(''a'', ''1'')] =
     Inr (VMap [(''k'', VString ''1''), (''l'', VSlice [])]) \<and>
   map fst [(''k'', VString ''1''), (''l'', VSlice [])] =
     map fst [(''k'', VString ''$a''), (''l'', VSlice [])]"
proof -
  have e1: "interpolateVars (VString ''$a'') [(''a'', ''1'')] = Inr (VString ''1'')"
    by code_simp
  have e2: "interpolateVars (VString ''b'') [(''a'', ''1'')] = Inr (VString ''b'')"
    by code_simp
  have e3: "interpolateVars (VSlice []) [(''a'', ''1'')] = Inr (VSlice [])"
    by simp
  have "\<forall>i<length [VString ''$a'', VString ''b''].
          interpolateVars ([VString ''$a'', VString ''b''] ! i) [(''a'', ''1'')] =
            Inr ([VString ''1'', VString ''b''] ! i)"
    using e1 e2 by (simp add: less_Suc_eq)
  moreover have "\<forall>i<length [(''k'', VString ''$a''), (''l'', VSlice [])].
          interpolateVars (snd ([(''k'', VString ''$a''), (''l'', VSlice [])] ! i)) [(''a'', ''1'')] =
            Inr (snd ([(''k'', VString ''1''), (''l'', VSlice [])] ! i))"
    using e1 e3 by (simp add: less_Suc_eq)
  ultimately show ?thesis
    using interpolateVars_preserves_shape [of "[VString ''$a'', VString ''b'']" "[(''a'', ''1'')]"
        "VSlice [VString ''1'', VString ''b'']" "[(''k'', VString ''$a''), (''l'', VSlice [])]"]
      interpolateVars_preserves_shape [of "[VString ''$a'', VString ''b'']" "[(''a'', ''1'')]"
        "VMap [(''k'', VString ''1''), (''l'', VSlice [])]" "[(''k'', VString ''$a''), (''l'', VSlice [])]"]
    by simp
qed

section \<open>The translator\<close>

subsection \<open>The loops in closed form\<close>

lemma args_loop_closed: "args_loop argslice args = args @ map Sprint argslice"
  by (induction argslice arbitrary: args) auto

lemma items_loop_closed:
  "items_loop key arrval args = args @ concat (map (\<lambda>item. [''--'' @ key, Sprint item]) arrval)"
  by (induction arrval arbitrary: args) auto

lemma customs_loop_closed:
  assumes "\<forall>entry\<in>set customs. \<forall>mapval. snd entry = VMap mapval \<longrightarrow>
             (\<exists>strval. Marshal env mapval = Inr strval)"
  shows "customs_loop env customs args = Inr (args @ concat (map (custom_flags env) customs))"
  using assms
proof (induction customs arbitrary: args)
  case Nil
  then show ?case by simp
next
  case (Cons entry rest)
  then show ?case
    by (cases "snd entry") (auto simp: custom_flags_def)
qed

lemma customs_loop_fails:
  assumes "entry \<in> set customs" and "snd entry = VMap mapval" and "Marshal env mapval = Inl err"
  shows "\<exists>err'. customs_loop env customs args = Inl err'"
  using assms
proof (induction customs arbitrary: args)
  case Nil
  then show ?case by simp
next
  case (Cons e rest)
  then show ?case
    by (cases "snd e") (auto split: sum.splits)
qed

lemma customs_loop_prefix:
  "customs_loop env customs args = Inr r \<Longrightarrow> \<exists>added. r = args @ added"
proof (induction customs arbitrary: args)
  case Nil
  then show ?case by simp
next
  case (Cons e rest)
  then show ?case
    by (cases "snd e") (fastforce split: sum.splits)+
qed

lemma switch_key_prefix:
  "switch_key env key value args = Inr r \<Longrightarrow> \<exists>added. r = args @ added"
  by (cases "value")
     (auto simp: switch_key_def args_loop_closed items_loop_closed
       dest: customs_loop_prefix split: if_splits)

lemma fields_loop_prefix:
  "fields_loop env entries args = Inr r \<Longrightarrow> \<exists>added. r = args @ added"
proof (induction entries arbitrary: args)
  case Nil
  then show ?case by simp
next
  case (Cons field rest)
  then obtain args1 where 1: "switch_key env (fst field) (snd field) args = Inr args1"
    and 2: "fields_loop env rest args1 = Inr r"
    by (auto split: sum.splits)
  from switch_key_prefix [OF 1] Cons.IH [OF 2] show ?case by auto
qed

lemma fields_loop_append:
  "fields_loop env (before @ after) args =
     (case fields_loop env before args of
        Inl err \<Rightarrow> Inl err
      | Inr args1 \<Rightarrow> fields_loop env after args1)"
  by (induction before arbitrary: args) (auto split: sum.splits)

lemma fields_loop_field:
  assumes "fields_loop env (before @ (key, value) # after) args = Inr r"
  shows "\<exists>args1 args2 rest. fields_loop env before args = Inr args1 \<and>
           switch_key env key value args1 = Inr args2 \<and> r = args2 @ rest"
proof -
  from assms obtain args1 where 1: "fields_loop env before args = Inr args1"
    and "fields_loop env ((key, value) # after) args1 = Inr r"
    by (auto simp: fields_loop_append split: sum.splits)
  then obtain args2 where 2: "switch_key env key value args1 = Inr args2"
    and 3: "fields_loop env after args2 = Inr r"
    by (auto split: sum.splits)
  from fields_loop_prefix [OF 3] 1 2 show ?thesis by blast
qed

lemma customs_loop_step:
  "customs_loop env (entry # rest) args = Inr r \<Longrightarrow>
     customs_loop env rest (args @ custom_flags env entry) = Inr r"
  by (cases "snd entry") (auto simp: custom_flags_def split: sum.splits)

lemma customs_loop_Inr:
  "customs_loop env customs args = Inr r \<Longrightarrow>
     r = args @ concat (map (custom_flags env) customs)"
proof (induction customs arbitrary: args)
  case Nil
  then show ?case by simp
next
  case (Cons entry rest)
  from Cons.IH [OF customs_loop_step [OF Cons.prems]] show ?case by simp
qed

subsection \<open>Fields other than the special three\<close>

text \<open>
  C7. For a key other than \<open>action\<close>, \<open>args\<close> and \<open>custom\<close>: a slice appends \<open>--key\<close>
  and the rendered element once for each element, in the order of the slice; any
  other value, a string in particular, appends \<open>--key\<close> and the rendered value once.
  In the argument vector built for an action that holds the field, these arguments
  stand together in this order.
\<close>

theorem switch_key_generic_flag:
  assumes "key \<noteq> ''action''" and "key \<noteq> ''args''" and "key \<noteq> ''custom''"
  shows "switch_key env key (VSlice arrval) args =
           Inr (args @ concat (map (\<lambda>item. [''--'' @ key, Sprint item]) arrval)) \<and>
         switch_key env key (VString s) args = Inr (args @ [''--'' @ key, s]) \<and>
         ((\<forall>items. other \<noteq> VSlice items) \<longrightarrow>
            switch_key env key other args = Inr (args @ [''--'' @ key, Sprint other])) \<and>
         (fields_loop env (before @ (key, VSlice arrval) # after) args = Inr r \<longrightarrow>
            (\<exists>args1 rest.
               r = args1 @ concat (map (\<lambda>item. [''--'' @ key, Sprint item]) arrval) @ rest)) \<and>
         (fields_loop env (before @ (key, VString s) # after) args = Inr r \<longrightarrow>
            (\<exists>args1 rest. r = args1 @ [''--'' @ key, s] @ rest))"
proof -
  have slice: "switch_key env key (VSlice arrval) a =
      Inr (a @ concat (map (\<lambda>item. [''--'' @ key, Sprint item]) arrval))" for a
    using assms by (simp add: switch_key_def items_loop_closed)
  have other: "switch_key env key v a = Inr (a @ [''--'' @ key, Sprint v])"
    if "\<forall>items. v \<noteq> VSlice items" for v a
    using assms that by (cases v) (simp_all add: switch_key_def)
  have str: "switch_key env key (VString s) a = Inr (a @ [''--'' @ key, s])" for a
    using other [of "VString s" a] by simp
  have "\<exists>args1 rest. r = args1 @ concat (map (\<lambda>item. [''--'' @ key, Sprint item]) arrval) @ rest"
    if "fields_loop env (before @ (key, VSlice arrval) # after) args = Inr r"
    using fields_loop_field [OF that] slice by auto
  moreover have "\<exists>args1 rest. r = args1 @ [''--'' @ key, s] @ rest"
    if "fields_loop env (before @ (key, VString s) # after) args = Inr r"
    using fields_loop_field [OF that] str by auto
  ultimately show ?thesis
    using slice other str by blast
qed

theorem switch_key_generic_flag_witness:
  "''labels'' \<noteq> ''action'' \<and> ''labels'' \<noteq> ''args'' \<and> ''labels'' \<noteq> ''custom'' \<and>
   switch_key (example_env \<lparr>Define = None, Actions = []\<rparr>) ''labels''
     (VSlice [VString ''a'', VString ''b'']) [''issue'', ''label''] =
       Inr [''issue'', ''label'', ''--labels'', ''a'', ''--labels'', ''b''] \<and>
   switch_key (example_env \<lparr>Define = None, Actions = []\<rparr>) ''summary''
     (VString ''Build widget'') [''issue'', ''create''] =
       Inr [''issue'', ''create'', ''--summary'', ''Build widget''] \<and>
   runScript_body (example_env \<lparr>Define = None, Actions = []\<rparr>)
     [(''action'', VString ''label''), (''labels'', VSlice [VString ''a'', VString ''b''])] None [] =
     (None, None,
      [Printed (''Running [issue label --labels a --labels b]'' @ [CHR 0x0A]),
       Executed [''issue'', ''label'', ''--labels'', ''a'', ''--labels'', ''b'']])"
proof -
  have h1: "''labels'' \<noteq> ''action''" and h2: "''labels'' \<noteq> ''args''"
    and h3: "''labels'' \<noteq> ''custom''"
    by simp_all
  have g1: "''summary'' \<noteq> ''action''" and g2: "''summary'' \<noteq> ''args''"
    and g3: "''summary'' \<noteq> ''custom''"
    by simp_all
  have run: "runScript_body (example_env \<lparr>Define = None, Actions = []\<rparr>)
     [(''action'', VString ''label''), (''labels'', VSlice [VString ''a'', VString ''b''])] None [] =
     (None, None,
      [Printed (''Running [issue label --labels a --labels b]'' @ [CHR 0x0A]),
       Executed [''issue'', ''label'', ''--labels'', ''a'', ''--labels'', ''b'']])"
    by code_simp
  show ?thesis
    using run
      switch_key_generic_flag [OF h1 h2 h3, of "example_env \<lparr>Define = None, Actions = []\<rparr>"
        "[VString ''a'', VString ''b'']" "[''issue'', ''label'']"]
      switch_key_generic_flag [OF g1 g2 g3, of "example_env \<lparr>Define = None, Actions = []\<rparr>"
        _ "[''issue'', ''create'']" "''Build widget''"]
    by simp
qed

subsection \<open>The field custom\<close>

text \<open>
  C6. For the key \<open>custom\<close>: a value that is not a map is an error. For a map whose
  nested maps the encoder accepts, the arguments of the entries are appended entry
  by entry: \<open>--custom\<close> and \<open>name=value\<close> for a value that is not a map, \<open>--custom\<close> and
  \<open>json:name=\<close> with the encoder's text for a nested map. In the argument vector built
  for an action that holds the field, these arguments stand together in this order.
\<close>

theorem switch_key_custom:
  "((\<forall>entry\<in>set customs. \<forall>mapval. snd entry = VMap mapval \<longrightarrow>
        (\<exists>strval. Marshal env mapval = Inr strval)) \<longrightarrow>
      switch_key env ''custom'' (VMap customs) args =
        Inr (args @ concat (map (custom_flags env) customs))) \<and>
   ((\<forall>mapval. fvalue \<noteq> VMap mapval) \<longrightarrow>
      custom_flags env (fname, fvalue) = [''--custom'', fname @ ''='' @ Sprint fvalue]) \<and>
   (Marshal env mapval = Inr strval \<longrightarrow>
      custom_flags env (fname, VMap mapval) = [''--custom'', ''json:'' @ fname @ ''='' @ strval]) \<and>
   ((\<forall>m. other \<noteq> VMap m) \<longrightarrow> switch_key env ''custom'' other args = Inl CustomNotMap) \<and>
   (fields_loop env (before @ (''custom'', VMap customs) # after) args = Inr r \<longrightarrow>
      (\<exists>args1 rest. r = args1 @ concat (map (custom_flags env) customs) @ rest))"
proof -
  have 1: "switch_key env ''custom'' (VMap customs) args =
        Inr (args @ concat (map (custom_flags env) customs))"
    if "\<forall>entry\<in>set customs. \<forall>mapval. snd entry = VMap mapval \<longrightarrow>
        (\<exists>strval. Marshal env mapval = Inr strval)"
    using customs_loop_closed [OF that] by (simp add: switch_key_def)
  have 2: "custom_flags env (fname, fvalue) = [''--custom'', fname @ ''='' @ Sprint fvalue]"
    if "\<forall>mapval. fvalue \<noteq> VMap mapval"
    using that by (cases fvalue) (simp_all add: custom_flags_def)
  have 3: "custom_flags env (fname, VMap mapval) = [''--custom'', ''json:'' @ fname @ ''='' @ strval]"
    if "Marshal env mapval = Inr strval"
    using that by (simp add: custom_flags_def)
  have 4: "switch_key env ''custom'' other args = Inl CustomNotMap"
    if "\<forall>m. other \<noteq> VMap m"
    using that by (cases other) (simp_all add: switch_key_def)
  have 5: "\<exists>args1 rest. r = args1 @ concat (map (custom_flags env) customs) @ rest"
    if "fields_loop env (before @ (''custom'', VMap customs) # after) args = Inr r"
  proof -
    from fields_loop_field [OF that] obtain args1 args2 rest
      where "switch_key env ''custom'' (VMap customs) args1 = Inr args2" and r: "r = args2 @ rest"
      by blast
    then have "customs_loop env customs args1 = Inr args2" by (simp add: switch_key_def)
    from customs_loop_Inr [OF this] r show ?thesis by auto
  qed
  from 1 2 3 4 5 show ?thesis by blast
qed

theorem switch_key_custom_witness:
  \<open>switch_key (example_env \<lparr>Define = None, Actions = []\<rparr>) ''custom''
     (VMap [(''risk'', VMap [(''level'', VString ''high'')]), (''points'', VString ''3'')])
     [''issue'', ''update''] =
       Inr [''issue'', ''update'', ''--custom'', ''json:risk={"level":"high"}'',
            ''--custom'', ''points=3''] \<and>
   switch_key (example_env \<lparr>Define = None, Actions = []\<rparr>) ''custom'' (VString ''high'')
     [''issue'', ''update''] = Inl CustomNotMap \<and>
   runScript_body (example_env \<lparr>Define = None, Actions = []\<rparr>)
     [(''action'', VString ''update''),
      (''custom'', VMap [(''risk'', VMap [(''level'', VString ''high'')])])] None [] =
     (None, None,
      [Printed (''Running [issue update --custom json:risk={"level":"high"}]'' @ [CHR 0x0A]),
       Executed [''issue'', ''update'', ''--custom'', ''json:risk={"level":"high"}'']])\<close>
proof -
  let ?env = "example_env \<lparr>Define = None, Actions = []\<rparr>"
  let ?customs = "[(''risk'', VMap [(''level'', VString ''high'')]), (''points'', VString ''3'')]"
  have encoded: \<open>Marshal ?env [(''level'', VString ''high'')] = Inr ''{"level":"high"}''\<close>
    by code_simp
  have accepted: "\<forall>entry\<in>set ?customs. \<forall>mapval. snd entry = VMap mapval \<longrightarrow>
        (\<exists>strval. Marshal ?env mapval = Inr strval)"
    using encoded by simp
  have flags: \<open>concat (map (custom_flags ?env) ?customs) =
      [''--custom'', ''json:risk={"level":"high"}'', ''--custom'', ''points=3'']\<close>
    using encoded by (simp add: custom_flags_def)
  have not_map: "\<forall>m. VString ''high'' \<noteq> VMap m" by simp
  have run: \<open>runScript_body ?env
     [(''action'', VString ''update''),
      (''custom'', VMap [(''risk'', VMap [(''level'', VString ''high'')])])] None [] =
     (None, None,
      [Printed (''Running [issue update --custom json:risk={"level":"high"}]'' @ [CHR 0x0A]),
       Executed [''issue'', ''update'', ''--custom'', ''json:risk={"level":"high"}'']])\<close>
    by code_simp
  note c = switch_key_custom [where customs = ?customs and env = ?env
      and args = "[''issue'', ''update'']" and other = "VString ''high''"]
  have 1: "switch_key ?env ''custom'' (VMap ?customs) [''issue'', ''update''] =
      Inr ([''issue'', ''update''] @ concat (map (custom_flags ?env) ?customs))"
    using c accepted by blast
  have 2: "switch_key ?env ''custom'' (VString ''high'') [''issue'', ''update''] = Inl CustomNotMap"
    using c not_map by blast
  show ?thesis
    using 1 2 run unfolding flags by simp
qed

section \<open>The driver\<close>

subsection \<open>What an iteration does to Define\<close>

lemma issueKey_foldl_Consume:
  "issueKey (foldl Consume consumer keys) = (if keys = [] then issueKey consumer else last keys)"
  by (induction keys arbitrary: consumer) (auto simp: Consume_def)

lemma runScript_body_failed:
  "runScript_body env action dmap w = (Some e, dmap', w') \<Longrightarrow> dmap' = dmap"
  by (auto simp: runScript_body_def Let_def
      split: option.splits val.splits sum.splits prod.splits if_splits)

lemma runScript_body_succeeded:
  assumes "runScript_body env action dmap w = (None, dmap', w')"
  shows "\<exists>name args keys w1.
           map_of action ''action'' = Some (VString name) \<and>
           take 2 args = [''issue'', name] \<and>
           ExecuteC env args w1 = (None, keys, w') \<and>
           (if name = ''create'' \<or> name = ''clone''
            then \<exists>m. dmap = Some m \<and>
                   dmap' = Some (AList.update ''issue_key''
                                  (issueKey (foldl Consume \<lparr>issueKey = []\<rparr> keys)) m)
            else dmap' = dmap)"
proof -
  from assms obtain name where name: "map_of action ''action'' = Some (VString name)"
    by (auto simp: runScript_body_def split: option.splits val.splits)
  from assms name obtain action1
    where "interpolateVars (VMap action) (contents dmap) = Inr (VMap action1)"
    by (auto simp: runScript_body_def split: sum.splits val.splits)
  note facts = name this
  from assms facts obtain subCmd where "Find env [''issue'', name] = Inr subCmd"
    by (auto simp: runScript_body_def simp del: interpolateVars.simps split: sum.splits)
  note facts = facts this
  define args1 where "args1 =
    (if (case GetBool env ''no-input'' of Inl _ \<Rightarrow> False | Inr b \<Rightarrow> b) \<and> has_no_input subCmd
     then [''issue'', name] @ [''--no-input''] else [''issue'', name])"
  from assms facts obtain args2 where args2: "fields_loop env action1 args1 = Inr args2"
    by (auto simp: runScript_body_def args1_def Let_def simp del: interpolateVars.simps
        split: sum.splits)
  define w1 where "w1 = Printf env (''Running ['' @ Join args2 '' '' @ '']'' @ [CHR 0x0A]) w"
  from assms facts args2 obtain keys where
    exec: "ExecuteC env args2 w1 = (None, keys, w')"
    and result: "if name = ''create'' \<or> name = ''clone''
            then \<exists>m. dmap = Some m \<and>
                   dmap' = Some (AList.update ''issue_key''
                                  (issueKey (foldl Consume \<lparr>issueKey = []\<rparr> keys)) m)
            else dmap' = dmap"
    by (auto simp: runScript_body_def args1_def w1_def Let_def simp del: interpolateVars.simps
        split: sum.splits prod.splits option.splits if_splits)
  from fields_loop_prefix [OF args2] have "take 2 args2 = [''issue'', name]"
    by (auto simp: args1_def)
  with name exec result show ?thesis by blast
qed

lemma runScript_loop_Define:
  assumes "runScript_loop env actions dmap w = (r, dmap', w')"
  shows "(\<forall>k. k \<noteq> ''issue_key'' \<longrightarrow> map_of (contents dmap') k = map_of (contents dmap) k) \<and>
         dom (map_of (contents dmap)) \<subseteq> dom (map_of (contents dmap')) \<and>
         (dmap' = None \<longleftrightarrow> dmap = None) \<and>
         (dmap' \<noteq> dmap \<longrightarrow>
            (\<exists>action\<in>set actions.
               map_of action ''action'' = Some (VString ''create'') \<or>
               map_of action ''action'' = Some (VString ''clone'')))"
  using assms
proof (induction actions arbitrary: dmap w)
  case Nil
  then show ?case by simp
next
  case (Cons action rest)
  obtain r1 dmap1 w1 where body: "runScript_body env action dmap w = (r1, dmap1, w1)"
    by (cases "runScript_body env action dmap w") auto
  show ?case
  proof (cases r1)
    case (Some e)
    with body Cons.prems runScript_body_failed [of env action dmap w e dmap1 w1]
    show ?thesis by simp
  next
    case None
    from runScript_body_succeeded [OF body [unfolded None]]
    obtain name v where name: "map_of action ''action'' = Some (VString name)"
      and dmap1: "if name = ''create'' \<or> name = ''clone''
                  then \<exists>m. dmap = Some m \<and> dmap1 = Some (AList.update ''issue_key'' v m)
                  else dmap1 = dmap"
      by blast
    from body None Cons.prems have "runScript_loop env rest dmap1 w1 = (r, dmap', w')"
      by simp
    note ih = Cons.IH [OF this]
    have step1: "\<forall>k. k \<noteq> ''issue_key'' \<longrightarrow> map_of (contents dmap1) k = map_of (contents dmap) k"
      using dmap1 by (auto simp: update_conv' contents_def split: if_splits)
    have step2: "dom (map_of (contents dmap)) \<subseteq> dom (map_of (contents dmap1))"
      using dmap1 by (auto simp: update_conv' contents_def split: if_splits)
    have step3: "dmap1 \<noteq> dmap \<longrightarrow> name = ''create'' \<or> name = ''clone''"
      using dmap1 by (auto split: if_splits)
    have step4: "dmap1 = None \<longleftrightarrow> dmap = None"
      using dmap1 by (auto split: if_splits)
    from ih step1
    have 1: "\<forall>k. k \<noteq> ''issue_key'' \<longrightarrow> map_of (contents dmap') k = map_of (contents dmap) k"
      by simp
    from ih step2 have 2: "dom (map_of (contents dmap)) \<subseteq> dom (map_of (contents dmap'))"
      by blast
    from ih step4 have 4: "dmap' = None \<longleftrightarrow> dmap = None"
      by blast
    have 3: "\<exists>a\<in>set (action # rest).
               map_of a ''action'' = Some (VString ''create'') \<or>
               map_of a ''action'' = Some (VString ''clone'')" if "dmap' \<noteq> dmap"
    proof (cases "dmap1 = dmap")
      case True
      with ih that show ?thesis by auto
    next
      case False
      with step3 name show ?thesis by auto
    qed
    from 1 2 3 4 show ?thesis by blast
  qed
qed

subsection \<open>Define as a map\<close>

text \<open>
  Let \<open>Define\<close> be a map. An iteration of the loop over the actions that returns no
  error and whose action is named \<open>create\<close> or \<open>clone\<close> has executed a command line
  that starts with \<open>issue\<close> and that name, and leaves \<open>Define\<close> with \<open>issue_key\<close> set to
  the key handed to the consumer during that execution (the last one if there were
  several, the empty string if there was none). Every other iteration, failed or
  not, leaves \<open>Define\<close> as it was, nil or not. So over any run of the loop, to its end
  or to its first error, every key other than \<open>issue_key\<close> keeps its value, no key
  disappears, a nil \<open>Define\<close> stays nil and a map stays a map, and \<open>Define\<close> only differs
  at the end if some action was named \<open>create\<close> or \<open>clone\<close>. The next iteration starts
  from the \<open>Define\<close> that the previous one left.
\<close>

lemma runScript_Define_map:
  "(runScript_body env action (Some defs) w = (None, dmap1, w1) \<and>
    map_of action ''action'' = Some (VString name) \<and> (name = ''create'' \<or> name = ''clone'') \<longrightarrow>
      (\<exists>args w0 keys.
         take 2 args = [''issue'', name] \<and>
         ExecuteC env args w0 = (None, keys, w1) \<and>
         dmap1 = Some (AList.update ''issue_key'' (if keys = [] then [] else last keys) defs) \<and>
         map_of (contents dmap1) ''issue_key'' = Some (if keys = [] then [] else last keys))) \<and>
   (runScript_body env action dmap w = (r1, dmap1, w1) \<and>
    \<not> (r1 = None \<and> (map_of action ''action'' = Some (VString ''create'') \<or>
                     map_of action ''action'' = Some (VString ''clone''))) \<longrightarrow>
      dmap1 = dmap) \<and>
   (runScript_body env action dmap w = (None, dmap1, w1) \<longrightarrow>
      runScript_loop env (action # rest) dmap w = runScript_loop env rest dmap1 w1) \<and>
   (runScript_loop env actions dmap w = (r, dmap', w') \<longrightarrow>
      (\<forall>k. k \<noteq> ''issue_key'' \<longrightarrow> map_of (contents dmap') k = map_of (contents dmap) k) \<and>
      dom (map_of (contents dmap)) \<subseteq> dom (map_of (contents dmap')) \<and>
      (dmap' = None \<longleftrightarrow> dmap = None) \<and>
      (dmap' \<noteq> dmap \<longrightarrow>
         (\<exists>action\<in>set actions.
            map_of action ''action'' = Some (VString ''create'') \<or>
            map_of action ''action'' = Some (VString ''clone''))))"
proof -
  have 1: "\<exists>args w0 keys.
         take 2 args = [''issue'', name] \<and>
         ExecuteC env args w0 = (None, keys, w1) \<and>
         dmap1 = Some (AList.update ''issue_key'' (if keys = [] then [] else last keys) defs) \<and>
         map_of (contents dmap1) ''issue_key'' = Some (if keys = [] then [] else last keys)"
    if body: "runScript_body env action (Some defs) w = (None, dmap1, w1)"
      and name: "map_of action ''action'' = Some (VString name)"
      and capture: "name = ''create'' \<or> name = ''clone''"
  proof -
    from runScript_body_succeeded [OF body] name capture
    obtain args keys w0 where "take 2 args = [''issue'', name]"
      and "ExecuteC env args w0 = (None, keys, w1)"
      and "dmap1 = Some (AList.update ''issue_key''
             (issueKey (foldl Consume \<lparr>issueKey = []\<rparr> keys)) defs)"
      by auto
    then show ?thesis
      by (auto simp: issueKey_foldl_Consume update_conv' contents_def)
  qed
  have 2: "dmap1 = dmap"
    if body: "runScript_body env action dmap w = (r1, dmap1, w1)"
      and other: "\<not> (r1 = None \<and> (map_of action ''action'' = Some (VString ''create'') \<or>
                     map_of action ''action'' = Some (VString ''clone'')))"
  proof (cases r1)
    case (Some e)
    with body have "runScript_body env action dmap w = (Some e, dmap1, w1)" by simp
    then show ?thesis by (rule runScript_body_failed)
  next
    case None
    with runScript_body_succeeded [of env action dmap w dmap1 w1] body other
    show ?thesis by auto
  qed
  have 3: "runScript_loop env (action # rest) dmap w = runScript_loop env rest dmap1 w1"
    if "runScript_body env action dmap w = (None, dmap1, w1)"
    using that by simp
  from 1 2 3 runScript_loop_Define [of env actions dmap w r dmap' w']
  show ?thesis by blast
qed

lemma runScript_Define_map_example:
  "runScript_loop (example_env \<lparr>Define = None, Actions = []\<rparr>)
     [[(''action'', VString ''create''), (''summary'', VString ''Build $name'')],
      [(''action'', VString ''comment''), (''args'', VSlice [VString ''$issue_key'', VString ''done''])]]
     (Some [(''name'', ''widget'')]) [] =
     (None, Some [(''name'', ''widget''), (''issue_key'', ''PROJ-7'')],
      [Printed (''Running [issue create --summary Build widget]'' @ [CHR 0x0A]),
       Executed [''issue'', ''create'', ''--summary'', ''Build widget''],
       Printed (''Running [issue comment PROJ-7 done]'' @ [CHR 0x0A]),
       Executed [''issue'', ''comment'', ''PROJ-7'', ''done'']]) \<and>
   runScript
     (example_env \<lparr>Define = Some [(''name'', ''~1'')],
        Actions =
          [[(''action'', VString ''create''), (''summary'', VString ''Build $name'')],
           [(''action'', VString ''comment''),
            (''args'', VSlice [VString ''$issue_key'', VString ''done''])]]\<rparr>)
     example_lookup ''script.yml'' [''widget''] [] =
     (None,
      [Printed (''Running [issue create --summary Build widget]'' @ [CHR 0x0A]),
       Executed [''issue'', ''create'', ''--summary'', ''Build widget''],
       Printed (''Running [issue comment PROJ-7 done]'' @ [CHR 0x0A]),
       Executed [''issue'', ''comment'', ''PROJ-7'', ''done'']])"
  by code_simp

subsection \<open>Define nil\<close>

lemma runScript_body_nil_capture:
  assumes "runScript_body env action None w = (r, dmap1, w1)"
    and "map_of action ''action'' = Some (VString name)"
    and "name = ''create'' \<or> name = ''clone''"
  shows "r \<noteq> None \<and> dmap1 = None"
proof (cases r)
  case None
  with runScript_body_succeeded [of env action None w dmap1 w1] assms show ?thesis by auto
next
  case (Some e)
  with assms(1) have "runScript_body env action None w = (Some e, dmap1, w1)" by simp
  from runScript_body_failed [OF this] Some show ?thesis by simp
qed

text \<open>
  C2. A script without a \<open>define\<close> section leaves \<open>Define\<close> nil, and \<open>SetupArgs\<close> and
  \<open>interpolateVars\<close> only read it. The iteration for an action named \<open>create\<close> then
  executes \<open>issue create\<close>, which reports the key \<open>PROJ-7\<close>, and panics on the
  assignment to \<open>script.Define["issue_key"]\<close>: \<open>issue_key\<close> is not set and the action
  that follows is not run. The same script with an empty \<open>define\<close> section runs to
  its end, the second action receiving \<open>PROJ-7\<close>.
\<close>

theorem runScript_nil_Define_panics:
  "runScript_body (example_env \<lparr>Define = None, Actions = []\<rparr>)
     [(''action'', VString ''create''), (''summary'', VString ''Build widget'')] None [] =
     (Some PanicAssignNilMap, None,
      [Printed (''Running [issue create --summary Build widget]'' @ [CHR 0x0A]),
       Executed [''issue'', ''create'', ''--summary'', ''Build widget'']]) \<and>
   runScript
     (example_env \<lparr>Define = None,
        Actions =
          [[(''action'', VString ''create''), (''summary'', VString ''Build widget'')],
           [(''action'', VString ''comment''),
            (''args'', VSlice [VString ''$issue_key'', VString ''done''])]]\<rparr>)
     example_lookup ''script.yml'' [] [] =
     (Some PanicAssignNilMap,
      [Printed (''Running [issue create --summary Build widget]'' @ [CHR 0x0A]),
       Executed [''issue'', ''create'', ''--summary'', ''Build widget'']]) \<and>
   runScript
     (example_env \<lparr>Define = Some [],
        Actions =
          [[(''action'', VString ''create''), (''summary'', VString ''Build widget'')],
           [(''action'', VString ''comment''),
            (''args'', VSlice [VString ''$issue_key'', VString ''done''])]]\<rparr>)
     example_lookup ''script.yml'' [] [] =
     (None,
      [Printed (''Running [issue create --summary Build widget]'' @ [CHR 0x0A]),
       Executed [''issue'', ''create'', ''--summary'', ''Build widget''],
       Printed (''Running [issue comment PROJ-7 done]'' @ [CHR 0x0A]),
       Executed [''issue'', ''comment'', ''PROJ-7'', ''done'']])"
  by code_simp

end
